theory Spec2Isabelle
  imports Complex_Main "HOL-Library.Log_Nat" "HOL-Library.Multiset" "HOL-Library.Sublist"
begin

section \<open>JavaScript numbers\<close>

text \<open>
  Scores are JavaScript numbers: IEEE 754 binary64 values. A finite value is carried as
  the rational it denotes; every arithmetic operation rounds its exact result to the
  nearest representable value, ties to even, with gradual underflow and overflow to an
  infinity. The sign of zero is not modelled. Token counts, budgets and indices are
  integers and are carried as \<open>int\<close> (JavaScript computes exactly on integers below
  \<open>2^53\<close>).
\<close>

datatype jsnum = Num rat | PosInf | NegInf | NaN

text \<open>Round to the nearest integer, ties to the even one.\<close>

definition rne :: "rat \<Rightarrow> int" where
  "rne x = (let f = \<lfloor>x\<rfloor>; d = x - of_int f in
     if d < 1 / 2 then f else if 1 / 2 < d then f + 1 else if even f then f else f + 1)"

text \<open>The binary exponent of a positive rational: \<open>2^e \<le> x < 2^(e+1)\<close>.\<close>

definition ilog2 :: "rat \<Rightarrow> int" where
  "ilog2 x = (let (p, q) = quotient_of x; e = bitlen p - bitlen q in
     if 2 powi e \<le> x then e else e - 1)"

text \<open>
  Rounding to binary64: 53 significant bits, the exponent of the last bit not below
  \<open>-1074\<close>; a rounded magnitude of \<open>2^1024\<close> or more is an infinity.
\<close>

definition round64 :: "rat \<Rightarrow> jsnum" where
  "round64 x = (if x = 0 then Num 0 else
     let e = max (ilog2 \<bar>x\<bar>) (- 1022) - 52;
         m = rne (x / 2 powi e)
     in if 1024 < bitlen \<bar>m\<bar> + e then (if 0 < x then PosInf else NegInf)
        else Num (of_int m * 2 powi e))"

fun js_neg :: "jsnum \<Rightarrow> jsnum" where
  "js_neg (Num x) = Num (- x)"
| "js_neg PosInf = NegInf"
| "js_neg NegInf = PosInf"
| "js_neg NaN = NaN"

fun js_add :: "jsnum \<Rightarrow> jsnum \<Rightarrow> jsnum" where
  "js_add NaN _ = NaN"
| "js_add _ NaN = NaN"
| "js_add PosInf NegInf = NaN"
| "js_add NegInf PosInf = NaN"
| "js_add PosInf _ = PosInf"
| "js_add _ PosInf = PosInf"
| "js_add NegInf _ = NegInf"
| "js_add _ NegInf = NegInf"
| "js_add (Num x) (Num y) = round64 (x + y)"

definition js_sub :: "jsnum \<Rightarrow> jsnum \<Rightarrow> jsnum" where
  "js_sub a b = js_add a (js_neg b)"

fun js_inf :: "bool \<Rightarrow> jsnum" where
  "js_inf True = PosInf"
| "js_inf False = NegInf"

fun js_mul :: "jsnum \<Rightarrow> jsnum \<Rightarrow> jsnum" where
  "js_mul NaN _ = NaN"
| "js_mul _ NaN = NaN"
| "js_mul (Num x) (Num y) = round64 (x * y)"
| "js_mul (Num x) PosInf = (if x = 0 then NaN else js_inf (0 < x))"
| "js_mul (Num x) NegInf = (if x = 0 then NaN else js_inf (x < 0))"
| "js_mul PosInf (Num y) = (if y = 0 then NaN else js_inf (0 < y))"
| "js_mul NegInf (Num y) = (if y = 0 then NaN else js_inf (y < 0))"
| "js_mul PosInf PosInf = PosInf"
| "js_mul NegInf NegInf = PosInf"
| "js_mul PosInf NegInf = NegInf"
| "js_mul NegInf PosInf = NegInf"

fun js_div :: "jsnum \<Rightarrow> jsnum \<Rightarrow> jsnum" where
  "js_div NaN _ = NaN"
| "js_div _ NaN = NaN"
| "js_div (Num x) (Num y) =
     (if y = 0 then (if x = 0 then NaN else js_inf (0 < x)) else round64 (x / y))"
| "js_div (Num x) _ = Num 0"
| "js_div PosInf (Num y) = js_inf (0 \<le> y)"
| "js_div NegInf (Num y) = js_inf (y < 0)"
| "js_div _ _ = NaN"

text \<open>The tests \<open>v > 0\<close> and \<open>v < 0\<close>, and truthiness (\<open>0\<close> and \<open>NaN\<close> are falsy).\<close>

fun js_pos :: "jsnum \<Rightarrow> bool" where
  "js_pos (Num x) = (0 < x)"
| "js_pos PosInf = True"
| "js_pos _ = False"

fun js_negative :: "jsnum \<Rightarrow> bool" where
  "js_negative (Num x) = (x < 0)"
| "js_negative NegInf = True"
| "js_negative _ = False"

fun truthy :: "jsnum \<Rightarrow> bool" where
  "truthy (Num x) = (x \<noteq> 0)"
| "truthy NaN = False"
| "truthy _ = True"

text \<open>\<open>a || b\<close> on numbers.\<close>

definition js_or :: "jsnum \<Rightarrow> jsnum \<Rightarrow> jsnum" where
  "js_or a b = (if truthy a then a else b)"

text \<open>
  A number a double can hold and a comparator can order: a representable finite value or
  an infinity, not \<open>NaN\<close>.
\<close>

fun is_double :: "jsnum \<Rightarrow> bool" where
  "is_double (Num x) = (round64 x = Num x)"
| "is_double NaN = False"
| "is_double _ = True"

text \<open>The order of the numbers, \<open>a < b\<close>; false whenever \<open>NaN\<close> takes part.\<close>

fun js_less :: "jsnum \<Rightarrow> jsnum \<Rightarrow> bool" where
  "js_less (Num x) (Num y) = (x < y)"
| "js_less NegInf (Num y) = True"
| "js_less NegInf PosInf = True"
| "js_less (Num x) PosInf = True"
| "js_less _ _ = False"

section \<open>Array.prototype.sort\<close>

text \<open>
  The sort is stable; the comparator's result \<open>v\<close> puts \<open>b\<close> before \<open>a\<close> when
  \<open>v > 0\<close>, and a \<open>NaN\<close> result counts as \<open>+0\<close>. For a consistent comparator the
  result is the one stable sorted arrangement, computed here by insertion.
\<close>

fun js_insert :: "('a \<Rightarrow> 'a \<Rightarrow> jsnum) \<Rightarrow> 'a \<Rightarrow> 'a list \<Rightarrow> 'a list" where
  "js_insert cmp x [] = [x]"
| "js_insert cmp x (y # ys) =
     (if js_pos (cmp x y) then y # js_insert cmp x ys else x # y # ys)"

definition js_sort :: "('a \<Rightarrow> 'a \<Rightarrow> jsnum) \<Rightarrow> 'a list \<Rightarrow> 'a list" where
  "js_sort cmp xs = foldr (js_insert cmp) xs []"

section \<open>Data model (types.ts)\<close>

datatype Priority = Required | High | Medium | Low

datatype Placement = Beginning | Middle | End

datatype DropStrategy = Relevance | Oldest | NoDrop

datatype CompressStrategy = Truncate | SummarizeOldest | NoCompress

text \<open>The payload of an item, as passed by the caller: a string or an object.\<close>

datatype 'v raw = Str string | Obj 'v

record 'v ContextItem =
  item_id :: string
  source :: string
  content :: string
  val :: "'v raw"
  tokens :: int
  priority :: Priority
  score :: jsnum
  index :: int

record DroppedItem =
  d_source :: string
  d_id :: string
  d_tokens :: int
  d_score :: jsnum
  d_reason :: string

record 'v PackedItem =
  p_id :: string
  p_source :: string
  p_content :: string
  p_value :: "'v raw"
  p_tokens :: int
  p_score :: jsnum
  p_placement :: Placement

section \<open>Greedy packer (pack/greedy.ts)\<close>

record 'v PackDecision =
  included :: "'v ContextItem list"
  dropped :: "DroppedItem list"
  totalTokens :: int

text \<open>The partition loop: required items and optional items, each in input order.\<close>

fun split_required ::
  "'v ContextItem list \<Rightarrow> 'v ContextItem list \<Rightarrow> 'v ContextItem list
    \<Rightarrow> 'v ContextItem list \<times> 'v ContextItem list" where
  "split_required [] required optional = (required, optional)"
| "split_required (item # rest) required optional =
     (if priority item = Required then split_required rest (required @ [item]) optional
      else split_required rest required (optional @ [item]))"

text \<open>Required items always go in, even if they exceed the budget.\<close>

fun admit_required :: "'v ContextItem list \<Rightarrow> 'v PackDecision \<Rightarrow> 'v PackDecision" where
  "admit_required [] d = d"
| "admit_required (item # rest) d =
     admit_required rest
       (d\<lparr>totalTokens := totalTokens d + tokens item, included := included d @ [item]\<rparr>)"

text \<open>The comparator \<open>b.score - a.score || a.tokens - b.tokens\<close>.\<close>

definition greedy_cmp :: "'v ContextItem \<Rightarrow> 'v ContextItem \<Rightarrow> jsnum" where
  "greedy_cmp a b = js_or (js_sub (score b) (score a)) (Num (of_int (tokens a - tokens b)))"

definition dropped_item :: "'v ContextItem \<Rightarrow> string \<Rightarrow> DroppedItem" where
  "dropped_item item why =
     \<lparr>d_source = source item, d_id = item_id item, d_tokens = tokens item,
      d_score = score item, d_reason = why\<rparr>"

fun admit_optional ::
  "int \<Rightarrow> 'v ContextItem list \<Rightarrow> 'v PackDecision \<Rightarrow> 'v PackDecision" where
  "admit_optional budget [] d = d"
| "admit_optional budget (item # rest) d =
     (if totalTokens d + tokens item \<le> budget
      then admit_optional budget rest
             (d\<lparr>totalTokens := totalTokens d + tokens item, included := included d @ [item]\<rparr>)
      else admit_optional budget rest
             (d\<lparr>dropped := dropped d @ [dropped_item item ''budget exhausted'']\<rparr>))"

definition greedyPack :: "'v ContextItem list \<Rightarrow> int \<Rightarrow> 'v PackDecision" where
  "greedyPack items budget =
     (let (required, optional) = split_required items [] [];
          d = admit_required required \<lparr>included = [], dropped = [], totalTokens = 0\<rparr>
      in admit_optional budget (js_sort greedy_cmp optional) d)"

section \<open>Scoring (score/priority.ts, score/recency.ts)\<close>

definition scorePriority :: "Priority \<Rightarrow> jsnum" where
  "scorePriority p = (case p of Required \<Rightarrow> PosInf | High \<Rightarrow> Num 100 | Medium \<Rightarrow> Num 50 | Low \<Rightarrow> Num 10)"

text \<open>
  \<open>minFactor + ((1 - minFactor) * i) / (total - 1)\<close>, each operation rounded as
  JavaScript rounds it; \<open>i\<close> and \<open>total - 1\<close> are array indices, exact as numbers.
\<close>

definition recency_factor :: "jsnum \<Rightarrow> nat \<Rightarrow> nat \<Rightarrow> jsnum" where
  "recency_factor minFactor i tot =
     js_add minFactor
       (js_div (js_mul (js_sub (Num 1) minFactor) (Num (of_nat i))) (Num (of_nat tot - 1)))"

text \<open>The loop over \<open>i = 0 .. total - 1\<close>; the list is what is left from index \<open>i\<close> on.\<close>

fun recency_loop :: "jsnum \<Rightarrow> nat \<Rightarrow> nat \<Rightarrow> 'v ContextItem list \<Rightarrow> 'v ContextItem list" where
  "recency_loop minFactor tot i [] = []"
| "recency_loop minFactor tot i (item # rest) =
     (if priority item = Required then item
      else item\<lparr>score := js_mul (score item) (recency_factor minFactor i tot)\<rparr>)
     # recency_loop minFactor tot (Suc i) rest"

definition applyRecencyBiasWith :: "jsnum \<Rightarrow> 'v ContextItem list \<Rightarrow> 'v ContextItem list" where
  "applyRecencyBiasWith minFactor items =
     (let tot = length items in
      if tot \<le> 1 then items else recency_loop minFactor tot 0 items)"

text \<open>The default option: the literal \<open>0.1\<close> is the double nearest to one tenth.\<close>

definition defaultMinFactor :: jsnum where
  "defaultMinFactor = round64 (1 / 10)"

definition applyRecencyBias :: "'v ContextItem list \<Rightarrow> 'v ContextItem list" where
  "applyRecencyBias items = applyRecencyBiasWith defaultMinFactor items"

section \<open>Dependency constraints (pack/constraints.ts)\<close>

record Constraint =
  ifIncluded :: string
  thenRequire :: string

record 'v Enforced =
  c_included :: "'v ContextItem list"
  added :: "'v ContextItem list"
  removed :: "'v ContextItem list"

text \<open>The variables of the loop: the array, the id set, the running total, the two logs.\<close>

record 'v cstate =
  cs_included :: "'v ContextItem list"
  cs_ids :: "string set"
  cs_tokens :: int
  cs_added :: "'v ContextItem list"
  cs_removed :: "'v ContextItem list"

text \<open>\<open>new Map(available.map(i => [i.id, i]))\<close>: a later entry replaces an earlier one.\<close>

definition availableMap :: "'v ContextItem list \<Rightarrow> string \<Rightarrow> 'v ContextItem option" where
  "availableMap available = map_of (rev (map (\<lambda>i. (item_id i, i)) available))"

fun findIndex :: "('a \<Rightarrow> bool) \<Rightarrow> 'a list \<Rightarrow> nat option" where
  "findIndex P [] = None"
| "findIndex P (x # xs) =
     (if P x then Some 0 else (case findIndex P xs of None \<Rightarrow> None | Some i \<Rightarrow> Some (Suc i)))"

definition enforce_step ::
  "int \<Rightarrow> (string \<Rightarrow> 'v ContextItem option) \<Rightarrow> 'v cstate \<Rightarrow> Constraint \<Rightarrow> 'v cstate" where
  "enforce_step budget amap st c =
     (if ifIncluded c \<notin> cs_ids st then st
      else if thenRequire c \<in> cs_ids st then st
      else (case amap (thenRequire c) of
        None \<Rightarrow> st
      | Some dep \<Rightarrow>
          if cs_tokens st + tokens dep \<le> budget
          then st\<lparr>cs_included := cs_included st @ [dep],
                  cs_ids := insert (item_id dep) (cs_ids st),
                  cs_tokens := cs_tokens st + tokens dep,
                  cs_added := cs_added st @ [dep]\<rparr>
          else (case findIndex (\<lambda>i. item_id i = ifIncluded c) (cs_included st) of
            None \<Rightarrow> st
          | Some triggerIdx \<Rightarrow>
              let trigger = cs_included st ! triggerIdx in
              if priority trigger \<noteq> Required
              then st\<lparr>cs_included := take triggerIdx (cs_included st) @ drop (Suc triggerIdx) (cs_included st),
                      cs_ids := cs_ids st - {item_id trigger},
                      cs_tokens := cs_tokens st - tokens trigger,
                      cs_removed := cs_removed st @ [trigger]\<rparr>
              else st)))"

fun enforce_loop ::
  "int \<Rightarrow> (string \<Rightarrow> 'v ContextItem option) \<Rightarrow> Constraint list \<Rightarrow> 'v cstate \<Rightarrow> 'v cstate" where
  "enforce_loop budget amap [] st = st"
| "enforce_loop budget amap (c # cs) st = enforce_loop budget amap cs (enforce_step budget amap st c)"

definition enforce_init :: "'v ContextItem list \<Rightarrow> 'v cstate" where
  "enforce_init incl =
     \<lparr>cs_included = incl, cs_ids = set (map item_id incl),
      cs_tokens = sum_list (map tokens incl), cs_added = [], cs_removed = []\<rparr>"

definition enforceConstraints ::
  "'v ContextItem list \<Rightarrow> 'v ContextItem list \<Rightarrow> Constraint list \<Rightarrow> int \<Rightarrow> 'v Enforced" where
  "enforceConstraints incl available constraints budget =
     (if constraints = [] then \<lparr>c_included = incl, added = [], removed = []\<rparr>
      else let st = enforce_loop budget (availableMap available) constraints (enforce_init incl)
           in \<lparr>c_included = cs_included st, added = cs_added st, removed = cs_removed st\<rparr>)"

text \<open>
  What the loop keeps true when the ids are distinct: the id set and the running total
  describe the array.
\<close>

definition enforce_inv :: "'v cstate \<Rightarrow> bool" where
  "enforce_inv st =
     (distinct (map item_id (cs_included st))
      \<and> cs_ids st = set (map item_id (cs_included st))
      \<and> cs_tokens st = sum_list (map tokens (cs_included st)))"

text \<open>
  The reconciliation in the words of the specification, on the admitted list and the
  two logs alone: the running total is the sum of the costs of the admitted items, an
  item is admitted when its id is the id of an admitted item, and the dependency is
  looked up in the pool by id (the last item of that id, should an id occur twice).
\<close>

fun spec_reconcile_step ::
  "int \<Rightarrow> 'v ContextItem list
    \<Rightarrow> 'v ContextItem list \<times> 'v ContextItem list \<times> 'v ContextItem list \<Rightarrow> Constraint
    \<Rightarrow> 'v ContextItem list \<times> 'v ContextItem list \<times> 'v ContextItem list" where
  "spec_reconcile_step budget pool (admitted, adds, rems) c =
     (if ifIncluded c \<notin> set (map item_id admitted) then (admitted, adds, rems)
      else if thenRequire c \<in> set (map item_id admitted) then (admitted, adds, rems)
      else (case find (\<lambda>x. item_id x = thenRequire c) (rev pool) of
        None \<Rightarrow> (admitted, adds, rems)
      | Some dep \<Rightarrow>
          if sum_list (map tokens admitted) + tokens dep \<le> budget
          then (admitted @ [dep], adds @ [dep], rems)
          else (case find (\<lambda>x. item_id x = ifIncluded c) admitted of
            None \<Rightarrow> (admitted, adds, rems)
          | Some trigger \<Rightarrow>
              if priority trigger = Required then (admitted, adds, rems)
              else (filter (\<lambda>x. item_id x \<noteq> ifIncluded c) admitted, adds, rems @ [trigger]))))"

definition spec_reconcile ::
  "'v ContextItem list \<Rightarrow> 'v ContextItem list \<Rightarrow> Constraint list \<Rightarrow> int
    \<Rightarrow> 'v ContextItem list \<times> 'v ContextItem list \<times> 'v ContextItem list" where
  "spec_reconcile admitted pool constraints budget =
     foldl (spec_reconcile_step budget pool) (admitted, [], []) constraints"

section \<open>Placement (pack/placement.ts)\<close>

text \<open>The four buckets, filled in input order: system, query, history, rest.\<close>

fun classify ::
  "'v ContextItem list \<Rightarrow> 'v ContextItem list \<Rightarrow> 'v ContextItem list \<Rightarrow> 'v ContextItem list
    \<Rightarrow> 'v ContextItem list
    \<Rightarrow> 'v ContextItem list \<times> 'v ContextItem list \<times> 'v ContextItem list \<times> 'v ContextItem list" where
  "classify [] sys qry hist rest = (sys, qry, hist, rest)"
| "classify (item # others) sys qry hist rest =
     (if source item = ''system'' then classify others (sys @ [item]) qry hist rest
      else if source item = ''query'' then classify others sys (qry @ [item]) hist rest
      else if source item = ''history'' then classify others sys qry (hist @ [item]) rest
      else classify others sys qry hist (rest @ [item]))"

text \<open>The items of the last branch: neither system, nor query, nor history.\<close>

definition floating :: "'v ContextItem \<Rightarrow> bool" where
  "floating item =
     (source item \<noteq> ''system'' \<and> source item \<noteq> ''query'' \<and> source item \<noteq> ''history'')"

definition index_cmp :: "'v ContextItem \<Rightarrow> 'v ContextItem \<Rightarrow> jsnum" where
  "index_cmp a b = Num (of_int (index a - index b))"

definition score_desc_cmp :: "'v ContextItem \<Rightarrow> 'v ContextItem \<Rightarrow> jsnum" where
  "score_desc_cmp a b = js_sub (score b) (score a)"

text \<open>The loop over \<open>rest[i]\<close>: even ranks to \<open>beginning\<close>, odd ranks to \<open>middle\<close>.\<close>

fun alternate ::
  "nat \<Rightarrow> 'a list \<Rightarrow> 'a list \<Rightarrow> 'a list \<Rightarrow> 'a list \<times> 'a list" where
  "alternate i [] beginning middle = (beginning, middle)"
| "alternate i (x # xs) beginning middle =
     (if i mod 2 = 0 then alternate (Suc i) xs (beginning @ [x]) middle
      else alternate (Suc i) xs beginning (middle @ [x]))"

definition packed :: "Placement \<Rightarrow> 'v ContextItem \<Rightarrow> 'v PackedItem" where
  "packed placement item =
     \<lparr>p_id = item_id item, p_source = source item, p_content = content item,
      p_value = val item, p_tokens = tokens item, p_score = score item,
      p_placement = placement\<rparr>"

definition push :: "'v ContextItem list \<Rightarrow> Placement \<Rightarrow> 'v PackedItem list" where
  "push arr placement = map (packed placement) arr"

definition applyPlacement :: "'v ContextItem list \<Rightarrow> 'v PackedItem list" where
  "applyPlacement items =
     (let (sys, qry, hist, rest) = classify items [] [] [] [];
          history = js_sort index_cmp hist;
          sorted = js_sort score_desc_cmp rest;
          (beginning, middle) = alternate 0 sorted [] [];
          middle_rev = rev middle
      in push sys Beginning @ push beginning Beginning @ push middle_rev Middle
           @ push history End @ push qry End)"

section \<open>The optimizer (optimizer.ts)\<close>

text \<open>\<open>requires\<close> is carried as the list of its entries, in the order of \<open>Object.entries\<close>.\<close>

record 'v AddOptions =
  o_priority :: Priority
  o_dropStrategy :: "DropStrategy option"
  o_compressStrategy :: "CompressStrategy option"
  o_keepLast :: "int option"
  o_scorer :: "('v ContextItem \<Rightarrow> string \<Rightarrow> jsnum) option"
  o_requires :: "(string \<times> string) list option"

record 'v ContextSource =
  src_name :: string
  src_items :: "'v ContextItem list"
  src_options :: "'v AddOptions"

record OptimizerConfig =
  model :: string
  contextWindow :: int
  reserveOutput :: "int option"

text \<open>
  The object's fields. The registry of sources is a \<open>Map\<close>, read only by iteration, which
  follows insertion order: it is carried as the list of its values in that order. The
  items of a source are objects shared with every array they are put in; the only field
  \<open>pack\<close> ever writes is \<open>score\<close>, so a call returns the registry with the scores it
  left behind.
\<close>

record 'v Optimizer =
  config :: OptimizerConfig
  tokenizer :: "string \<Rightarrow> int"
  sources :: "'v ContextSource list"

definition DEFAULT_RESERVE_OUTPUT :: int where
  "DEFAULT_RESERVE_OUTPUT = 4096"

definition reset_score :: "'v ContextItem \<Rightarrow> 'v ContextItem" where
  "reset_score item = item\<lparr>score := scorePriority (priority item)\<rparr>"

definition custom_score ::
  "('v ContextItem \<Rightarrow> string \<Rightarrow> jsnum) \<Rightarrow> string \<Rightarrow> 'v ContextItem \<Rightarrow> 'v ContextItem" where
  "custom_score f q item = (if priority item \<noteq> Required then item\<lparr>score := f item q\<rparr> else item)"

text \<open>
  One round of the loop of \<open>collectAndScore\<close>: the items of a source with their new
  scores. \<open>scorer && query\<close> holds when a scorer is set and the query is a non-empty
  string.
\<close>

definition score_source :: "string option \<Rightarrow> 'v ContextSource \<Rightarrow> 'v ContextItem list" where
  "score_source query src =
     (let based = map reset_score (src_items src);
          biased = (if src_name src = ''history''
                       \<or> o_compressStrategy (src_options src) = Some SummarizeOldest
                    then applyRecencyBias based else based)
      in case o_scorer (src_options src) of
           None \<Rightarrow> biased
         | Some f \<Rightarrow> (case query of
               None \<Rightarrow> biased
             | Some q \<Rightarrow> if q \<noteq> [] then map (custom_score f q) biased else biased))"

fun collect_loop ::
  "string option \<Rightarrow> 'v ContextSource list \<Rightarrow> 'v ContextItem list
    \<Rightarrow> 'v ContextItem list \<times> 'v ContextSource list" where
  "collect_loop query [] allItems = (allItems, [])"
| "collect_loop query (src # rest) allItems =
     (let scored = score_source query src;
          (every, rest') = collect_loop query rest (allItems @ scored)
      in (every, src\<lparr>src_items := scored\<rparr> # rest'))"

definition collectAndScore ::
  "'v ContextSource list \<Rightarrow> string option \<Rightarrow> 'v ContextItem list \<times> 'v ContextSource list" where
  "collectAndScore srcs query = collect_loop query srcs []"

fun collectConstraints :: "'v ContextSource list \<Rightarrow> Constraint list" where
  "collectConstraints [] = []"
| "collectConstraints (src # rest) =
     (case o_requires (src_options src) of
        None \<Rightarrow> collectConstraints rest
      | Some entries \<Rightarrow>
          map (\<lambda>(a, b). \<lparr>ifIncluded = a, thenRequire = b\<rparr>) entries @ collectConstraints rest)"

definition query_item :: "(string \<Rightarrow> int) \<Rightarrow> string \<Rightarrow> 'v ContextItem" where
  "query_item count_tokens q =
     \<lparr>item_id = ''query_0'', source = ''query'', content = q, val = Str q,
      tokens = count_tokens q, priority = Required, score = PosInf, index = 0\<rparr>"

record ('v, 's, 'w) PackResult =
  r_items :: "'v PackedItem list"
  r_stats :: 's
  r_warnings :: 'w
  r_dropped :: "DroppedItem list"

text \<open>
  \<open>pack\<close>, with the two reporting functions of \<open>report/\<close> as parameters: they read
  their arguments only, and the result carries whatever they return. The second
  component is the optimizer after the call.
\<close>

definition pack ::
  "('v PackedItem list \<Rightarrow> DroppedItem list \<Rightarrow> int \<Rightarrow> OptimizerConfig \<Rightarrow> 's)
    \<Rightarrow> ('v PackedItem list \<Rightarrow> DroppedItem list \<Rightarrow> int \<Rightarrow> 'w)
    \<Rightarrow> 'v Optimizer \<Rightarrow> string option \<Rightarrow> ('v, 's, 'w) PackResult \<times> 'v Optimizer" where
  "pack buildStats detectWarnings opt query =
     (let budget = contextWindow (config opt)
                    - (case reserveOutput (config opt) of
                         None \<Rightarrow> DEFAULT_RESERVE_OUTPUT | Some r \<Rightarrow> r);
          (scored, srcs) = collectAndScore (sources opt) query;
          allItems = (case query of
                        None \<Rightarrow> scored
                      | Some q \<Rightarrow> if q \<noteq> [] then scored @ [query_item (tokenizer opt) q]
                                  else scored);
          d = greedyPack allItems budget;
          constraints = collectConstraints (sources opt);
          e = enforceConstraints (included d)
                (List.map_filter (\<lambda>di. find (\<lambda>i. item_id i = d_id di) allItems) (dropped d))
                constraints budget;
          addedIds = set (map item_id (added e));
          finalDropped = filter (\<lambda>di. d_id di \<notin> addedIds) (dropped d)
                           @ map (\<lambda>i. dropped_item i ''constraint dependency unavailable'')
                               (removed e);
          placed = applyPlacement (c_included e);
          stats = buildStats placed finalDropped budget (config opt);
          warnings = detectWarnings placed finalDropped budget
      in (\<lparr>r_items = placed, r_stats = stats, r_warnings = warnings, r_dropped = finalDropped\<rparr>,
          opt\<lparr>sources := srcs\<rparr>))"

section \<open>Items of the test suite\<close>

text \<open>An item as the tests write it: the id doubles as content and value.\<close>

definition mk_item ::
  "string \<Rightarrow> string \<Rightarrow> int \<Rightarrow> Priority \<Rightarrow> jsnum \<Rightarrow> int \<Rightarrow> unit ContextItem" where
  "mk_item i src t p s ix =
     \<lparr>item_id = i, source = src, content = i, val = Str i, tokens = t, priority = p,
      score = s, index = ix\<rparr>"

section \<open>Properties of the numbers\<close>

text \<open>The literal \<open>0.1\<close>: the double \<open>0x3FB999999999999A\<close>.\<close>

lemma round64_one_tenth: "round64 (1 / 10) = Num (3602879701896397 / 36028797018963968)"
  by code_simp

lemma ilog2_lower:
  assumes "0 < x"
  shows "2 powi (ilog2 x) \<le> x"
proof -
  obtain p q where pq: "quotient_of x = (p, q)" by (cases "quotient_of x")
  have q: "0 < q" using pq by (rule quotient_of_denom_pos)
  have x: "x = of_int p / of_int q" using pq by (rule quotient_of_div)
  have p: "0 < p" using assms q x by (simp add: zero_less_divide_iff)
  let ?e = "bitlen p - bitlen q"
  have bp: "(2::int) ^ nat (bitlen p - 1) \<le> p" using bitlen_bounds[OF p] by simp
  have bq: "q < (2::int) ^ nat (bitlen q)" using bitlen_bounds[OF q] by simp
  have bp1: "1 \<le> bitlen p" using p by (simp add: bitlen_alt_def)
  have bq1: "1 \<le> bitlen q" using q by (simp add: bitlen_alt_def)
  have "(2::rat) powi (?e - 1) = 2 powi ((bitlen p - 1) - bitlen q)"
    by (simp add: algebra_simps)
  also have "\<dots> = 2 powi (bitlen p - 1) / 2 powi (bitlen q)"
    by (rule power_int_diff) simp
  also have "\<dots> = 2 ^ nat (bitlen p - 1) / 2 ^ nat (bitlen q)"
    using bp1 bq1 by (simp add: power_int_def)
  also have "\<dots> \<le> of_int p / of_int q"
  proof -
    have a: "(2::rat) ^ nat (bitlen p - 1) \<le> of_int p"
      using bp by (metis of_int_le_iff of_int_numeral of_int_power)
    have b: "of_int q \<le> (2::rat) ^ nat (bitlen q)"
      using bq by (metis less_imp_le of_int_le_iff of_int_numeral of_int_power)
    have c: "(0::rat) < of_int q" using q by simp
    show ?thesis
      by (rule frac_le) (use a b c p in simp_all)
  qed
  finally have low: "(2::rat) powi (?e - 1) \<le> x" using x by simp
  show ?thesis
    using low by (simp add: ilog2_def pq Let_def)
qed


lemma ilog2_upper:
  assumes "0 < x"
  shows "x < 2 powi (ilog2 x + 1)"
proof -
  obtain p q where pq: "quotient_of x = (p, q)" by (cases "quotient_of x")
  have q: "0 < q" using pq by (rule quotient_of_denom_pos)
  have x: "x = of_int p / of_int q" using pq by (rule quotient_of_div)
  have p: "0 < p" using assms q x by (simp add: zero_less_divide_iff)
  let ?e = "bitlen p - bitlen q"
  have bp: "p < (2::int) ^ nat (bitlen p)" using bitlen_bounds[OF p] by simp
  have bq: "(2::int) ^ nat (bitlen q - 1) \<le> q" using bitlen_bounds[OF q] by simp
  have bp1: "1 \<le> bitlen p" using p by (simp add: bitlen_alt_def)
  have bq1: "1 \<le> bitlen q" using q by (simp add: bitlen_alt_def)
  have a: "of_int p < (2::rat) ^ nat (bitlen p)"
    using bp by (metis of_int_less_iff of_int_numeral of_int_power)
  have b: "(2::rat) ^ nat (bitlen q - 1) \<le> of_int q"
    using bq by (metis of_int_le_iff of_int_numeral of_int_power)
  have "of_int p / of_int q < (2::rat) ^ nat (bitlen p) / 2 ^ nat (bitlen q - 1)"
    by (rule frac_less) (use a b p in simp_all)
  also have "\<dots> = 2 powi (bitlen p) / 2 powi (bitlen q - 1)"
    using bp1 bq1 by (simp add: power_int_def)
  also have "\<dots> = 2 powi (bitlen p - (bitlen q - 1))"
    by (rule power_int_diff[symmetric]) simp
  also have "\<dots> = 2 powi (?e + 1)"
    by (simp add: algebra_simps)
  finally have up: "x < 2 powi (?e + 1)" using x by simp
  show ?thesis
  proof (cases "2 powi ?e \<le> x")
    case True
    then show ?thesis using up by (simp add: ilog2_def pq Let_def)
  next
    case False
    then show ?thesis by (simp add: ilog2_def pq Let_def)
  qed
qed

lemma rne_ge_one: "1 \<le> y \<Longrightarrow> 1 \<le> rne y"
proof -
  assume y: "1 \<le> y"
  have "1 \<le> \<lfloor>y\<rfloor>" using y by (simp add: le_floor_iff)
  then show ?thesis by (simp add: rne_def Let_def)
qed

lemma rne_le_minus_one: "y \<le> - 1 \<Longrightarrow> rne y \<le> - 1"
proof -
  assume y: "y \<le> - 1"
  have f: "\<lfloor>y\<rfloor> \<le> - 1" using y by (simp add: floor_le_iff)
  show ?thesis
  proof (cases "\<lfloor>y\<rfloor> = - 1")
    case True
    have "of_int \<lfloor>y\<rfloor> \<le> y" by (rule of_int_floor_le)
    then have "y = - 1" using y True by simp
    moreover have "\<lfloor>(- 1)::rat\<rfloor> = - 1" using floor_of_int[of "- 1", where ?'a = rat] by simp
    ultimately show ?thesis by (simp add: rne_def Let_def)
  next
    case False
    then have "\<lfloor>y\<rfloor> + 1 \<le> - 1" using f by linarith
    then show ?thesis using f by (simp add: rne_def Let_def)
  qed
qed

lemma round64_grid:
  assumes "round64 x = Num y"
  shows "\<exists>k::int. y = of_int k * 2 powi (- 1074)"
proof (cases "x = 0")
  case True
  then have "y = 0" using assms by (simp add: round64_def)
  then show ?thesis by (intro exI[of _ 0]) simp
next
  case False
  define e where "e = max (ilog2 \<bar>x\<bar>) (- 1022) - 52"
  define m where "m = rne (x / 2 powi e)"
  have y: "y = of_int m * 2 powi e"
    using assms False by (simp add: round64_def Let_def e_def m_def split: if_splits)
  have e: "- 1074 \<le> e" by (simp add: e_def)
  have "(2::rat) powi e = 2 powi ((e + 1074) + (- 1074))" by simp
  also have "\<dots> = 2 powi (e + 1074) * 2 powi (- 1074)"
    by (rule power_int_add) simp
  also have "(2::rat) powi (e + 1074) = of_int (2 ^ nat (e + 1074))"
    using e by (simp add: power_int_def)
  finally have "y = of_int (m * 2 ^ nat (e + 1074)) * 2 powi (- 1074)"
    using y by simp
  then show ?thesis by blast
qed

lemma round64_sign:
  assumes "x \<noteq> 0" and "x = of_int k * 2 powi (- 1074)"
  shows "(0 < x \<longrightarrow> js_pos (round64 x)) \<and> (x < 0 \<longrightarrow> js_negative (round64 x))"
proof -
  define e where "e = max (ilog2 \<bar>x\<bar>) (- 1022) - 52"
  define m where "m = rne (x / 2 powi e)"
  have pe: "(0::rat) < 2 powi e" by simp
  have big: "1 \<le> \<bar>x\<bar> / 2 powi e"
  proof (cases "- 1022 \<le> ilog2 \<bar>x\<bar>")
    case True
    then have e52: "ilog2 \<bar>x\<bar> = e + 52" by (simp add: e_def)
    have "(2::rat) powi e \<le> 2 powi e * 2 powi 52" by simp
    also have "\<dots> = 2 powi (e + 52)" by (rule power_int_add[symmetric]) simp
    also have "\<dots> \<le> \<bar>x\<bar>" using ilog2_lower[of "\<bar>x\<bar>"] assms(1) e52 by simp
    finally show ?thesis using pe by (simp add: le_divide_eq)
  next
    case False
    then have "e = - 1074" by (simp add: e_def)
    then have "\<bar>x\<bar> / 2 powi e = \<bar>of_int k\<bar>" using assms(2) by (simp add: abs_mult)
    moreover have "k \<noteq> 0" using assms by auto
    ultimately show ?thesis by simp
  qed
  have r: "round64 x = (if 1024 < bitlen \<bar>m\<bar> + e then (if 0 < x then PosInf else NegInf)
        else Num (of_int m * 2 powi e))"
    using assms(1) by (simp add: round64_def Let_def e_def m_def)
  have pos: "js_pos (round64 x)" if "0 < x"
  proof -
    have "1 \<le> x / 2 powi e" using big that by simp
    then have "1 \<le> m" unfolding m_def by (rule rne_ge_one)
    then have "(0::rat) < of_int m * 2 powi e" using pe by (simp add: zero_less_mult_iff)
    then show ?thesis using that by (simp add: r)
  qed
  have neg: "js_negative (round64 x)" if "x < 0"
  proof -
    have "x / 2 powi e = - (\<bar>x\<bar> / 2 powi e)" using that by simp
    then have "x / 2 powi e \<le> - 1" using big by linarith
    then have "m \<le> - 1" unfolding m_def by (rule rne_le_minus_one)
    then have "of_int m * 2 powi e < (0::rat)" using pe by (simp add: mult_less_0_iff)
    then show ?thesis using that by (simp add: r)
  qed
  show ?thesis using pos neg by blast
qed

lemma round64_sub_sign:
  assumes rx: "round64 x = Num x" and ry: "round64 y = Num y"
  shows "js_pos (round64 (y - x)) = (x < y) \<and> js_negative (round64 (y - x)) = (y < x)
      \<and> truthy (round64 (y - x)) = (x \<noteq> y)"
proof (cases "x = y")
  case True
  then show ?thesis by (simp add: round64_def)
next
  case False
  obtain kx where kx: "x = of_int kx * 2 powi (- 1074)" using round64_grid[OF rx] by blast
  obtain ky where ky: "y = of_int ky * 2 powi (- 1074)" using round64_grid[OF ry] by blast
  have d: "y - x = of_int (ky - kx) * 2 powi (- 1074)"
    by (subst kx, subst ky) (simp add: algebra_simps)
  have nz: "y - x \<noteq> 0" using False by simp
  from round64_sign[OF nz d]
  have s: "0 < y - x \<longrightarrow> js_pos (round64 (y - x))" "y - x < 0 \<longrightarrow> js_negative (round64 (y - x))"
    by blast+
  show ?thesis
  proof (cases "x < y")
    case True
    then have "js_pos (round64 (y - x))" using s by simp
    then show ?thesis using True by (cases "round64 (y - x)") auto
  next
    case F: False
    then have "y < x" using False by simp
    then have "js_negative (round64 (y - x))" using s by simp
    then show ?thesis using \<open>y < x\<close> by (cases "round64 (y - x)") auto
  qed
qed

lemma js_sub_sign:
  assumes "is_double a" and "is_double b"
  shows "js_pos (js_sub b a) = js_less a b"
    and "js_negative (js_sub b a) = js_less b a"
    and "truthy (js_sub b a) = (a \<noteq> b)"
proof -
  note num = round64_sub_sign
  show "js_pos (js_sub b a) = js_less a b"
    using assms num by (cases a; cases b) (auto simp: js_sub_def)
  show "js_negative (js_sub b a) = js_less b a"
    using assms num by (cases a; cases b) (auto simp: js_sub_def)
  show "truthy (js_sub b a) = (a \<noteq> b)"
    using assms num by (cases a; cases b) (auto simp: js_sub_def)
qed

section \<open>Properties of the sort\<close>

lemma mset_js_insert: "mset (js_insert cmp x ys) = add_mset x (mset ys)"
  by (induction ys) auto

lemma mset_js_sort: "mset (js_sort cmp xs) = mset xs"
  unfolding js_sort_def by (induction xs) (auto simp: mset_js_insert)

lemma set_js_sort: "set (js_sort cmp xs) = set xs"
  using mset_js_sort[of cmp xs] by (metis set_mset_mset)

lemma js_sort_Cons: "js_sort cmp (x # xs) = js_insert cmp x (js_sort cmp xs)"
  by (simp add: js_sort_def)

lemma js_sort_Nil: "js_sort cmp [] = []"
  by (simp add: js_sort_def)

lemma set_js_insert: "set (js_insert cmp x ys) = insert x (set ys)"
  by (induction ys) auto

text \<open>A comparator that decides a total preorder sorts by it.\<close>

lemma sorted_wrt_js_insert:
  assumes srt: "sorted_wrt R ys"
    and le: "\<And>b. b \<in> set ys \<Longrightarrow> \<not> js_pos (cmp x b) \<Longrightarrow> R x b"
    and ge: "\<And>b. b \<in> set ys \<Longrightarrow> js_pos (cmp x b) \<Longrightarrow> R b x"
    and tr: "\<And>b c. b \<in> set ys \<Longrightarrow> c \<in> set ys \<Longrightarrow> R x b \<Longrightarrow> R b c \<Longrightarrow> R x c"
  shows "sorted_wrt R (js_insert cmp x ys)"
  using srt le ge tr
proof (induction ys)
  case Nil
  show ?case by simp
next
  case (Cons y ys)
  have s1: "sorted_wrt R ys" and s2: "\<forall>b\<in>set ys. R y b"
    using Cons.prems(1) by simp_all
  show ?case
  proof (cases "js_pos (cmp x y)")
    case True
    have ih: "sorted_wrt R (js_insert cmp x ys)"
    proof (rule Cons.IH[OF s1])
      show "\<And>b. b \<in> set ys \<Longrightarrow> \<not> js_pos (cmp x b) \<Longrightarrow> R x b"
        using Cons.prems(2) by simp
      show "\<And>b. b \<in> set ys \<Longrightarrow> js_pos (cmp x b) \<Longrightarrow> R b x"
        using Cons.prems(3) by simp
      show "\<And>b c. b \<in> set ys \<Longrightarrow> c \<in> set ys \<Longrightarrow> R x b \<Longrightarrow> R b c \<Longrightarrow> R x c"
      proof -
        fix b c assume "b \<in> set ys" "c \<in> set ys" "R x b" "R b c"
        then show "R x c" using Cons.prems(4)[of b c] by simp
      qed
    qed
    have yx: "R y x" using Cons.prems(3)[of y] True by simp
    have "\<forall>b\<in>set (js_insert cmp x ys). R y b"
      using yx s2 by (simp add: set_js_insert)
    then show ?thesis using True ih by simp
  next
    case False
    have xy: "R x y" using Cons.prems(2)[of y] False by simp
    have "R x b" if "b \<in> set ys" for b
      using Cons.prems(4)[of y b] xy s2 that by simp
    then show ?thesis using False xy s1 s2 by simp
  qed
qed

lemma sorted_wrt_js_sort:
  assumes le: "\<And>a b. a \<in> set xs \<Longrightarrow> b \<in> set xs \<Longrightarrow> \<not> js_pos (cmp a b) \<Longrightarrow> R a b"
    and ge: "\<And>a b. a \<in> set xs \<Longrightarrow> b \<in> set xs \<Longrightarrow> js_pos (cmp a b) \<Longrightarrow> R b a"
    and tr: "\<And>a b c. a \<in> set xs \<Longrightarrow> b \<in> set xs \<Longrightarrow> c \<in> set xs \<Longrightarrow> R a b \<Longrightarrow> R b c \<Longrightarrow> R a c"
  shows "sorted_wrt R (js_sort cmp xs)"
  using le ge tr
proof (induction xs)
  case Nil
  show ?case by (simp add: js_sort_Nil)
next
  case (Cons x xs)
  have ih: "sorted_wrt R (js_sort cmp xs)"
  proof (rule Cons.IH)
    fix a b assume ab: "a \<in> set xs" "b \<in> set xs"
    { assume "\<not> js_pos (cmp a b)"
      then show "R a b" using Cons.prems(1)[of a b] ab by simp }
    { assume "js_pos (cmp a b)"
      then show "R b a" using Cons.prems(2)[of a b] ab by simp }
    { fix c assume "c \<in> set xs" "R a b" "R b c"
      then show "R a c" using Cons.prems(3)[of a b c] ab by simp }
  qed
  show ?case
    unfolding js_sort_Cons
  proof (rule sorted_wrt_js_insert[OF ih])
    fix b assume b: "b \<in> set (js_sort cmp xs)"
    { assume "\<not> js_pos (cmp x b)"
      then show "R x b" using Cons.prems(1)[of x b] b by (simp add: set_js_sort) }
    { assume "js_pos (cmp x b)"
      then show "R b x" using Cons.prems(2)[of x b] b by (simp add: set_js_sort) }
    { fix c assume "c \<in> set (js_sort cmp xs)" "R x b" "R b c"
      then show "R x c" using Cons.prems(3)[of x b c] b by (simp add: set_js_sort) }
  qed
qed

text \<open>The sort is stable: items the comparator cannot tell apart keep their order.\<close>

lemma filter_js_insert:
  assumes "\<And>b. b \<in> set ys \<Longrightarrow> P x \<Longrightarrow> P b \<Longrightarrow> \<not> js_pos (cmp x b)"
  shows "filter P (js_insert cmp x ys) = (if P x then x # filter P ys else filter P ys)"
  using assms by (induction ys) auto

lemma filter_js_sort:
  assumes "\<And>a b. a \<in> set xs \<Longrightarrow> b \<in> set xs \<Longrightarrow> P a \<Longrightarrow> P b \<Longrightarrow> \<not> js_pos (cmp a b)"
  shows "filter P (js_sort cmp xs) = filter P xs"
  using assms
proof (induction xs)
  case Nil
  show ?case by (simp add: js_sort_Nil)
next
  case (Cons x xs)
  have ih: "filter P (js_sort cmp xs) = filter P xs"
  proof (rule Cons.IH)
    fix a b assume "a \<in> set xs" "b \<in> set xs" "P a" "P b"
    then show "\<not> js_pos (cmp a b)" using Cons.prems[of a b] by simp
  qed
  have "filter P (js_insert cmp x (js_sort cmp xs))
      = (if P x then x # filter P (js_sort cmp xs) else filter P (js_sort cmp xs))"
  proof (rule filter_js_insert)
    fix b assume "b \<in> set (js_sort cmp xs)" "P x" "P b"
    then show "\<not> js_pos (cmp x b)" using Cons.prems[of x b] by (simp add: set_js_sort)
  qed
  then show ?case by (simp add: js_sort_Cons ih)
qed

text \<open>The comparator of the packer.\<close>

lemma js_sub_self_falsy: "\<not> truthy (js_sub a a)"
  by (cases a) (simp_all add: js_sub_def round64_def)

lemma greedy_cmp_equal_keys:
  "score a = score b \<Longrightarrow> tokens a = tokens b \<Longrightarrow> \<not> js_pos (greedy_cmp a b)"
  using js_sub_self_falsy[of "score b"] by (simp add: greedy_cmp_def js_or_def)

lemma js_less_total: "is_double a \<Longrightarrow> is_double b \<Longrightarrow> a \<noteq> b \<Longrightarrow> js_less a b \<or> js_less b a"
  by (cases a; cases b) auto

lemma js_less_trans: "js_less a b \<Longrightarrow> js_less b c \<Longrightarrow> js_less a c"
  by (cases a; cases b; cases c) auto

lemma js_less_asym: "js_less a b \<Longrightarrow> \<not> js_less b a"
  by (cases a; cases b) auto

lemma js_less_irrefl: "\<not> js_less a a"
  by (cases a) auto

lemma greedy_cmp_pos:
  assumes "is_double (score a)" and "is_double (score b)"
  shows "js_pos (greedy_cmp a b)
     = (js_less (score a) (score b) \<or> (score a = score b \<and> tokens b < tokens a))"
proof (cases "score a = score b")
  case True
  then show ?thesis
    using js_sub_self_falsy[of "score b"] by (simp add: greedy_cmp_def js_or_def js_less_irrefl)
next
  case False
  then show ?thesis
    using js_sub_sign[OF assms] by (simp add: greedy_cmp_def js_or_def)
qed

section \<open>Properties of the greedy packer\<close>

lemma split_required_eq:
  "split_required xs r opt =
     (r @ filter (\<lambda>x. priority x = Required) xs, opt @ filter (\<lambda>x. priority x \<noteq> Required) xs)"
  by (induction xs arbitrary: r opt) auto

lemma admit_required_eq:
  "admit_required xs d =
     d\<lparr>totalTokens := totalTokens d + sum_list (map tokens xs), included := included d @ xs\<rparr>"
  by (induction xs arbitrary: d) (auto simp: algebra_simps)

text \<open>What the walk over the optional items leaves behind.\<close>

lemma admit_optional_shape:
  obtains adm ds where
    "included (admit_optional budget xs d) = included d @ adm"
    "dropped (admit_optional budget xs d) =
       dropped d @ map (\<lambda>x. \<lparr>d_source = source x, d_id = item_id x, d_tokens = tokens x,
            d_score = score x, d_reason = ''budget exhausted''\<rparr>) ds"
    "totalTokens (admit_optional budget xs d) = totalTokens d + sum_list (map tokens adm)"
    "mset adm + mset ds = mset xs"
    "subseq adm xs" "subseq ds xs"
    "\<forall>k<length adm. totalTokens d + sum_list (map tokens (take (Suc k) adm)) \<le> budget"
proof (induction xs arbitrary: d thesis)
  case Nil
  show ?case by (rule Nil[of "[]" "[]"]) simp_all
next
  case (Cons x xs)
  show ?case
  proof (cases "totalTokens d + tokens x \<le> budget")
    case True
    let ?d = "d\<lparr>totalTokens := totalTokens d + tokens x, included := included d @ [x]\<rparr>"
    obtain adm ds where
      h: "included (admit_optional budget xs ?d) = included ?d @ adm"
         "dropped (admit_optional budget xs ?d) = dropped ?d @ map (\<lambda>x. \<lparr>d_source = source x, d_id = item_id x, d_tokens = tokens x,
            d_score = score x, d_reason = ''budget exhausted''\<rparr>) ds"
         "totalTokens (admit_optional budget xs ?d) = totalTokens ?d + sum_list (map tokens adm)"
         "mset adm + mset ds = mset xs" "subseq adm xs" "subseq ds xs"
         "\<forall>k<length adm. totalTokens ?d + sum_list (map tokens (take (Suc k) adm)) \<le> budget"
      by (rule Cons.IH[of ?d]) 
    have p: "\<forall>k<length (x # adm). totalTokens d + sum_list (map tokens (take (Suc k) (x # adm))) \<le> budget"
    proof (intro allI impI)
      fix k assume "k < length (x # adm)"
      then show "totalTokens d + sum_list (map tokens (take (Suc k) (x # adm))) \<le> budget"
        using True h(7) by (cases k) (auto simp: algebra_simps)
    qed
    show ?thesis
      by (rule Cons.prems[of "x # adm" ds]) (use True h p in \<open>simp_all add: list_emb_Cons dropped_item_def\<close>)
  next
    case False
    let ?d = "d\<lparr>dropped := dropped d @ [dropped_item x ''budget exhausted'']\<rparr>"
    obtain adm ds where
      h: "included (admit_optional budget xs ?d) = included ?d @ adm"
         "dropped (admit_optional budget xs ?d) = dropped ?d @ map (\<lambda>x. \<lparr>d_source = source x, d_id = item_id x, d_tokens = tokens x,
            d_score = score x, d_reason = ''budget exhausted''\<rparr>) ds"
         "totalTokens (admit_optional budget xs ?d) = totalTokens ?d + sum_list (map tokens adm)"
         "mset adm + mset ds = mset xs" "subseq adm xs" "subseq ds xs"
         "\<forall>k<length adm. totalTokens ?d + sum_list (map tokens (take (Suc k) adm)) \<le> budget"
      by (rule Cons.IH[of ?d])
    show ?thesis
      by (rule Cons.prems[of adm "x # ds"]) (use False h in \<open>simp_all add: list_emb_Cons dropped_item_def\<close>)
  qed
qed

lemma greedyPack_unfold:
  "greedyPack items budget =
     admit_optional budget (js_sort greedy_cmp (filter (\<lambda>x. priority x \<noteq> Required) items))
       \<lparr>included = filter (\<lambda>x. priority x = Required) items, dropped = [],
        totalTokens = sum_list (map tokens (filter (\<lambda>x. priority x = Required) items))\<rparr>"
  by (simp add: greedyPack_def split_required_eq admit_required_eq)

text \<open>
  Claim C1. Whatever the budget, the included array starts with every required item of
  the input, in input order; the items behind them are optional ones. The dropped list
  is made of optional items only: the admitted optional items and the dropped ones
  together are exactly the optional items of the input. The total counts the full cost
  of the required items, and so may exceed the budget.
\<close>

theorem greedyPack_required_always_included:
  "\<exists>adm ds.
     included (greedyPack items budget) = filter (\<lambda>x. priority x = Required) items @ adm
     \<and> dropped (greedyPack items budget) = map (\<lambda>x. \<lparr>d_source = source x, d_id = item_id x, d_tokens = tokens x,
            d_score = score x, d_reason = ''budget exhausted''\<rparr>) ds
     \<and> mset adm + mset ds = mset (filter (\<lambda>x. priority x \<noteq> Required) items)
     \<and> totalTokens (greedyPack items budget) =
         sum_list (map tokens (filter (\<lambda>x. priority x = Required) items)) + sum_list (map tokens adm)"
proof -
  let ?d0 = "\<lparr>included = filter (\<lambda>x. priority x = Required) items, dropped = [],
        totalTokens = sum_list (map tokens (filter (\<lambda>x. priority x = Required) items))\<rparr>"
  obtain adm ds where
    h: "included (admit_optional budget (js_sort greedy_cmp (filter (\<lambda>x. priority x \<noteq> Required) items)) ?d0) = included ?d0 @ adm"
       "dropped (admit_optional budget (js_sort greedy_cmp (filter (\<lambda>x. priority x \<noteq> Required) items)) ?d0) =
          dropped ?d0 @ map (\<lambda>x. \<lparr>d_source = source x, d_id = item_id x, d_tokens = tokens x,
            d_score = score x, d_reason = ''budget exhausted''\<rparr>) ds"
       "totalTokens (admit_optional budget (js_sort greedy_cmp (filter (\<lambda>x. priority x \<noteq> Required) items)) ?d0) = totalTokens ?d0 + sum_list (map tokens adm)"
       "mset adm + mset ds = mset (js_sort greedy_cmp (filter (\<lambda>x. priority x \<noteq> Required) items))"
    by (rule admit_optional_shape)
  show ?thesis
    by (rule exI[of _ adm], rule exI[of _ ds]) (use h in \<open>simp add: greedyPack_unfold mset_js_sort\<close>)
qed

text \<open>One required item of 500 tokens and a budget of 100: admitted, the total is 500.\<close>

lemma greedyPack_required_over_budget:
  "greedyPack [mk_item ''sys'' ''system'' 500 Required PosInf 0] 100
     = \<lparr>included = [mk_item ''sys'' ''system'' 500 Required PosInf 0], dropped = [],
        totalTokens = 500\<rparr>"
  by (simp add: greedyPack_unfold mk_item_def js_sort_Nil)

lemma greedyPack_shape:
  obtains adm ds where
    "included (greedyPack items budget) = filter (\<lambda>x. priority x = Required) items @ adm"
    "dropped (greedyPack items budget) = map (\<lambda>x. \<lparr>d_source = source x, d_id = item_id x, d_tokens = tokens x,
            d_score = score x, d_reason = ''budget exhausted''\<rparr>) ds"
    "totalTokens (greedyPack items budget)
       = sum_list (map tokens (filter (\<lambda>x. priority x = Required) items)) + sum_list (map tokens adm)"
    "mset adm + mset ds = mset (filter (\<lambda>x. priority x \<noteq> Required) items)"
    "subseq adm (js_sort greedy_cmp (filter (\<lambda>x. priority x \<noteq> Required) items))"
    "subseq ds (js_sort greedy_cmp (filter (\<lambda>x. priority x \<noteq> Required) items))"
    "\<forall>k<length adm. sum_list (map tokens (filter (\<lambda>x. priority x = Required) items))
        + sum_list (map tokens (take (Suc k) adm)) \<le> budget"
proof -
  let ?d0 = "\<lparr>included = filter (\<lambda>x. priority x = Required) items, dropped = [],
        totalTokens = sum_list (map tokens (filter (\<lambda>x. priority x = Required) items))\<rparr>"
  let ?srt = "js_sort greedy_cmp (filter (\<lambda>x. priority x \<noteq> Required) items)"
  obtain adm ds where
    h: "included (admit_optional budget ?srt ?d0) = included ?d0 @ adm"
       "dropped (admit_optional budget ?srt ?d0) =
          dropped ?d0 @ map (\<lambda>x. \<lparr>d_source = source x, d_id = item_id x, d_tokens = tokens x,
            d_score = score x, d_reason = ''budget exhausted''\<rparr>) ds"
       "totalTokens (admit_optional budget ?srt ?d0) = totalTokens ?d0 + sum_list (map tokens adm)"
       "mset adm + mset ds = mset ?srt" "subseq adm ?srt" "subseq ds ?srt"
       "\<forall>k<length adm. totalTokens ?d0 + sum_list (map tokens (take (Suc k) adm)) \<le> budget"
    by (rule admit_optional_shape)
  show ?thesis
    by (rule that[of adm ds]) (use h in \<open>simp_all add: greedyPack_unfold mset_js_sort\<close>)
qed

text \<open>
  Claim C2, amended. An optional item is admitted only when the running total with it
  stays within the budget; every other optional item is in the dropped list with reason
  \<open>budget exhausted\<close>. The final total is at most the larger of the budget and the cost
  of the required items; with no required item it is at most the larger of the budget
  and zero, hence within any budget that is not negative.
\<close>

theorem greedyPack_budget_respected:
  "\<exists>adm ds.
     included (greedyPack items budget) = filter (\<lambda>x. priority x = Required) items @ adm
     \<and> dropped (greedyPack items budget) = map (\<lambda>x. \<lparr>d_source = source x, d_id = item_id x, d_tokens = tokens x,
            d_score = score x, d_reason = ''budget exhausted''\<rparr>) ds
     \<and> mset adm + mset ds = mset (filter (\<lambda>x. priority x \<noteq> Required) items)
     \<and> (\<forall>k<length adm. sum_list (map tokens (filter (\<lambda>x. priority x = Required) items))
            + sum_list (map tokens (take (Suc k) adm)) \<le> budget)
     \<and> totalTokens (greedyPack items budget)
          \<le> max budget (sum_list (map tokens (filter (\<lambda>x. priority x = Required) items)))
     \<and> (filter (\<lambda>x. priority x = Required) items = [] \<longrightarrow>
          totalTokens (greedyPack items budget) \<le> max budget 0
          \<and> (0 \<le> budget \<longrightarrow> totalTokens (greedyPack items budget) \<le> budget))"
proof -
  let ?R = "sum_list (map tokens (filter (\<lambda>x. priority x = Required) items))"
  obtain adm ds where
    h: "included (greedyPack items budget) = filter (\<lambda>x. priority x = Required) items @ adm"
       "dropped (greedyPack items budget) = map (\<lambda>x. \<lparr>d_source = source x, d_id = item_id x, d_tokens = tokens x,
            d_score = score x, d_reason = ''budget exhausted''\<rparr>) ds"
       "totalTokens (greedyPack items budget) = ?R + sum_list (map tokens adm)"
       "mset adm + mset ds = mset (filter (\<lambda>x. priority x \<noteq> Required) items)"
       "\<forall>k<length adm. ?R + sum_list (map tokens (take (Suc k) adm)) \<le> budget"
    by (rule greedyPack_shape)
  have bound: "totalTokens (greedyPack items budget) \<le> max budget ?R"
  proof (cases adm)
    case Nil
    then show ?thesis using h(3) by simp
  next
    case (Cons a as)
    then have "length adm - 1 < length adm" by simp
    then have "?R + sum_list (map tokens (take (Suc (length adm - 1)) adm)) \<le> budget"
      using h(5) by blast
    then show ?thesis using h(3) Cons by simp
  qed
  have none: "totalTokens (greedyPack items budget) \<le> max budget 0
      \<and> (0 \<le> budget \<longrightarrow> totalTokens (greedyPack items budget) \<le> budget)"
    if "filter (\<lambda>x. priority x = Required) items = []"
    using bound that by (auto simp: max_def split: if_splits)
  show ?thesis
    by (rule exI[of _ adm], rule exI[of _ ds]) (use h bound none in blast)
qed

theorem greedyPack_budget_respected_witness:
  "filter (\<lambda>x. priority x = Required)
      [mk_item ''a'' ''rag'' 100 Medium (Num 80) 0, mk_item ''b'' ''rag'' 100 Medium (Num 50) 1,
       mk_item ''c'' ''rag'' 100 Low (Num 20) 2] = []
   \<and> totalTokens (greedyPack
      [mk_item ''a'' ''rag'' 100 Medium (Num 80) 0, mk_item ''b'' ''rag'' 100 Medium (Num 50) 1,
       mk_item ''c'' ''rag'' 100 Low (Num 20) 2] 200) \<le> 200"
proof -
  let ?ex = "[mk_item ''a'' ''rag'' 100 Medium (Num 80) 0, mk_item ''b'' ''rag'' 100 Medium (Num 50) 1,
       mk_item ''c'' ''rag'' 100 Low (Num 20) 2]"
  have e: "filter (\<lambda>x. priority x = Required) ?ex = []"
    by (simp add: mk_item_def)
  from greedyPack_budget_respected[of ?ex 200]
  have "filter (\<lambda>x. priority x = Required) ?ex = [] \<longrightarrow>
     (0 \<le> (200::int) \<longrightarrow> totalTokens (greedyPack ?ex 200) \<le> 200)"
    by blast
  then show ?thesis using e by simp
qed

theorem greedyPack_negative_budget_counterexample:
  "0 \<le> tokens (mk_item ''a'' ''rag'' 10 Medium (Num 50) 0)
   \<and> priority (mk_item ''a'' ''rag'' 10 Medium (Num 50) 0) = Medium
   \<and> totalTokens (greedyPack [mk_item ''a'' ''rag'' 10 Medium (Num 50) 0] (- 5)) = 0
   \<and> \<not> totalTokens (greedyPack [mk_item ''a'' ''rag'' 10 Medium (Num 50) 0] (- 5)) \<le> - 5"
  by (simp add: greedyPack_unfold mk_item_def js_sort_Cons js_sort_Nil)

lemma admit_optional_none_fit:
  "\<forall>x\<in>set xs. budget < totalTokens d + tokens x \<Longrightarrow>
   admit_optional budget xs d
     = d\<lparr>dropped := dropped d @ map (\<lambda>x. \<lparr>d_source = source x, d_id = item_id x, d_tokens = tokens x,
            d_score = score x, d_reason = ''budget exhausted''\<rparr>) xs\<rparr>"
  by (induction xs arbitrary: d) (simp_all add: dropped_item_def)

text \<open>At budget zero with a total of zero, the items of zero cost go in and no others.\<close>

lemma admit_optional_zero_total:
  "totalTokens d = 0 \<Longrightarrow> \<forall>x\<in>set xs. 0 \<le> tokens x \<Longrightarrow>
   admit_optional 0 xs d
     = d\<lparr>included := included d @ filter (\<lambda>x. tokens x = 0) xs,
          dropped := dropped d
            @ map (\<lambda>x. \<lparr>d_source = source x, d_id = item_id x, d_tokens = tokens x,
            d_score = score x, d_reason = ''budget exhausted''\<rparr>) (filter (\<lambda>x. tokens x \<noteq> 0) xs)\<rparr>"
proof (induction xs arbitrary: d)
  case Nil
  show ?case by simp
next
  case (Cons x xs)
  have x: "0 \<le> tokens x" and xs: "\<forall>y\<in>set xs. 0 \<le> tokens y" using Cons.prems(2) by simp_all
  show ?case
  proof (cases "tokens x = 0")
    case True
    let ?d = "d\<lparr>totalTokens := totalTokens d + tokens x, included := included d @ [x]\<rparr>"
    have t: "totalTokens ?d = 0" using Cons.prems(1) True by simp
    have same: "?d = d\<lparr>included := included d @ [x]\<rparr>" using True by simp
    show ?thesis
      using Cons.IH[OF t xs] Cons.prems(1) True by (simp add: same dropped_item_def)
  next
    case False
    let ?d = "d\<lparr>dropped := dropped d @ [dropped_item x ''budget exhausted'']\<rparr>"
    have t: "totalTokens ?d = 0" using Cons.prems(1) by simp
    have "0 < tokens x" using x False by simp
    then show ?thesis
      using Cons.IH[OF t xs] Cons.prems(1) False by (simp add: dropped_item_def)
  qed
qed

lemma greedyPack_Nil:
  "greedyPack [] budget = \<lparr>included = [], dropped = [], totalTokens = 0\<rparr>"
  by (simp add: greedyPack_def js_sort_Nil)

text \<open>
  Claim C8, amended. Token costs are not negative and the budget is at most zero. Then
  exactly the required items are admitted and every optional item is dropped with reason
  \<open>budget exhausted\<close>, in the order of the sort, in every case but one: the budget is
  zero, the required items cost nothing in total and some optional item costs nothing.
  In that case the optional items of zero cost are admitted behind the required ones
  and the other optional items are dropped. Empty input gives the empty decision with
  total zero, whatever the budget.
\<close>

theorem greedyPack_nonpositive_budget:
  "(budget \<le> 0 \<and> (\<forall>x\<in>set items. 0 \<le> tokens x)
      \<and> (budget < 0
          \<or> 0 < sum_list (map tokens (filter (\<lambda>x. priority x = Required) items))
          \<or> (\<forall>x\<in>set items. priority x \<noteq> Required \<longrightarrow> 0 < tokens x)) \<longrightarrow>
     included (greedyPack items budget) = filter (\<lambda>x. priority x = Required) items
     \<and> dropped (greedyPack items budget)
          = map (\<lambda>x. \<lparr>d_source = source x, d_id = item_id x, d_tokens = tokens x,
                       d_score = score x, d_reason = ''budget exhausted''\<rparr>)
              (js_sort greedy_cmp (filter (\<lambda>x. priority x \<noteq> Required) items))
     \<and> totalTokens (greedyPack items budget)
          = sum_list (map tokens (filter (\<lambda>x. priority x = Required) items)))
   \<and> (budget = 0 \<and> (\<forall>x\<in>set items. 0 \<le> tokens x)
      \<and> sum_list (map tokens (filter (\<lambda>x. priority x = Required) items)) = 0 \<longrightarrow>
     included (greedyPack items budget)
        = filter (\<lambda>x. priority x = Required) items
          @ filter (\<lambda>x. tokens x = 0)
              (js_sort greedy_cmp (filter (\<lambda>x. priority x \<noteq> Required) items))
     \<and> dropped (greedyPack items budget)
          = map (\<lambda>x. \<lparr>d_source = source x, d_id = item_id x, d_tokens = tokens x,
                       d_score = score x, d_reason = ''budget exhausted''\<rparr>)
              (filter (\<lambda>x. tokens x \<noteq> 0)
                (js_sort greedy_cmp (filter (\<lambda>x. priority x \<noteq> Required) items)))
     \<and> totalTokens (greedyPack items budget) = 0)
   \<and> greedyPack ([] :: 'v ContextItem list) budget
        = \<lparr>included = [], dropped = [], totalTokens = 0\<rparr>"
proof -
  let ?R = "sum_list (map tokens (filter (\<lambda>x. priority x = Required) items))"
  let ?srt = "js_sort greedy_cmp (filter (\<lambda>x. priority x \<noteq> Required) items)"
  let ?d0 = "\<lparr>included = filter (\<lambda>x. priority x = Required) items, dropped = [],
        totalTokens = ?R\<rparr>"
  let ?rec = "\<lambda>x. \<lparr>d_source = source x, d_id = item_id x, d_tokens = tokens x,
                       d_score = score x, d_reason = ''budget exhausted''\<rparr>"
  have rec: "(\<lambda>x. dropped_item x ''budget exhausted'') = ?rec"
    by (rule ext) (simp add: dropped_item_def)
  have main: "included (greedyPack items budget) = filter (\<lambda>x. priority x = Required) items
     \<and> dropped (greedyPack items budget) = map ?rec ?srt
     \<and> totalTokens (greedyPack items budget) = ?R"
    if b: "budget \<le> 0" and nn: "\<forall>x\<in>set items. 0 \<le> tokens x"
      and pos: "budget < 0 \<or> 0 < ?R
          \<or> (\<forall>x\<in>set items. priority x \<noteq> Required \<longrightarrow> 0 < tokens x)"
  proof -
    have R: "0 \<le> ?R" using nn by (intro sum_list_nonneg) auto
    have "\<forall>x\<in>set ?srt. budget < totalTokens ?d0 + tokens x"
    proof
      fix x assume "x \<in> set ?srt"
      then have x: "x \<in> set items" "priority x \<noteq> Required" by (simp_all add: set_js_sort)
      then have "0 \<le> tokens x" using nn by blast
      moreover have "budget < 0 \<or> 0 < ?R \<or> 0 < tokens x" using pos x by blast
      ultimately show "budget < totalTokens ?d0 + tokens x" using R b by auto
    qed
    then have "admit_optional budget ?srt ?d0
        = ?d0\<lparr>dropped := dropped ?d0 @ map (\<lambda>x. \<lparr>d_source = source x, d_id = item_id x, d_tokens = tokens x,
            d_score = score x, d_reason = ''budget exhausted''\<rparr>) ?srt\<rparr>"
      by (rule admit_optional_none_fit)
    then show ?thesis unfolding rec by (simp add: greedyPack_unfold)
  qed
  have zero: "included (greedyPack items budget)
        = filter (\<lambda>x. priority x = Required) items @ filter (\<lambda>x. tokens x = 0) ?srt
     \<and> dropped (greedyPack items budget) = map ?rec (filter (\<lambda>x. tokens x \<noteq> 0) ?srt)
     \<and> totalTokens (greedyPack items budget) = 0"
    if b: "budget = 0" and nn: "\<forall>x\<in>set items. 0 \<le> tokens x" and r: "?R = 0"
  proof -
    have t: "totalTokens ?d0 = 0" using r by simp
    have s: "\<forall>x\<in>set ?srt. 0 \<le> tokens x" using nn by (simp add: set_js_sort)
    have "admit_optional 0 ?srt ?d0
        = ?d0\<lparr>included := included ?d0 @ filter (\<lambda>x. tokens x = 0) ?srt,
              dropped := dropped ?d0
                @ map (\<lambda>x. \<lparr>d_source = source x, d_id = item_id x, d_tokens = tokens x,
            d_score = score x, d_reason = ''budget exhausted''\<rparr>) (filter (\<lambda>x. tokens x \<noteq> 0) ?srt)\<rparr>"
      using t s by (rule admit_optional_zero_total)
    then show ?thesis unfolding rec using b r by (simp add: greedyPack_unfold)
  qed
  show ?thesis using main zero greedyPack_Nil by blast
qed

theorem greedyPack_nonpositive_budget_witness:
  "included (greedyPack [mk_item ''sys'' ''system'' 5 Required PosInf 0,
       mk_item ''m'' ''memory'' 0 Medium (Num 50) 0] 0)
     = [mk_item ''sys'' ''system'' 5 Required PosInf 0]
   \<and> dropped (greedyPack [mk_item ''sys'' ''system'' 5 Required PosInf 0,
       mk_item ''m'' ''memory'' 0 Medium (Num 50) 0] 0)
     = [\<lparr>d_source = ''memory'', d_id = ''m'', d_tokens = 0, d_score = Num 50,
         d_reason = ''budget exhausted''\<rparr>]
   \<and> totalTokens (greedyPack [mk_item ''sys'' ''system'' 5 Required PosInf 0,
       mk_item ''m'' ''memory'' 0 Medium (Num 50) 0] 0) = 5
   \<and> included (greedyPack [mk_item ''p'' ''rag'' 7 Medium (Num 50) 0,
       mk_item ''m'' ''memory'' 0 Low (Num 10) 0] 0)
     = [mk_item ''m'' ''memory'' 0 Low (Num 10) 0]
   \<and> map d_id (dropped (greedyPack [mk_item ''p'' ''rag'' 7 Medium (Num 50) 0,
       mk_item ''m'' ''memory'' 0 Low (Num 10) 0] 0)) = [''p'']"
proof -
  let ?ex = "[mk_item ''sys'' ''system'' 5 Required PosInf 0,
       mk_item ''m'' ''memory'' 0 Medium (Num 50) 0]"
  let ?ez = "[mk_item ''p'' ''rag'' 7 Medium (Num 50) 0, mk_item ''m'' ''memory'' 0 Low (Num 10) 0]"
  have h: "(0::int) \<le> 0 \<and> (\<forall>x\<in>set ?ex. 0 \<le> tokens x)
      \<and> ((0::int) < 0
          \<or> 0 < sum_list (map tokens (filter (\<lambda>x. priority x = Required) ?ex))
          \<or> (\<forall>x\<in>set ?ex. priority x \<noteq> Required \<longrightarrow> 0 < tokens x))"
    by (simp add: mk_item_def)
  from greedyPack_nonpositive_budget[of 0 ?ex] h
  have "included (greedyPack ?ex 0) = filter (\<lambda>x. priority x = Required) ?ex
     \<and> dropped (greedyPack ?ex 0)
          = map (\<lambda>x. \<lparr>d_source = source x, d_id = item_id x, d_tokens = tokens x,
                       d_score = score x, d_reason = ''budget exhausted''\<rparr>)
              (js_sort greedy_cmp (filter (\<lambda>x. priority x \<noteq> Required) ?ex))
     \<and> totalTokens (greedyPack ?ex 0)
          = sum_list (map tokens (filter (\<lambda>x. priority x = Required) ?ex))"
    by blast
  then have a: "included (greedyPack ?ex 0) = [mk_item ''sys'' ''system'' 5 Required PosInf 0]
     \<and> dropped (greedyPack ?ex 0)
       = [\<lparr>d_source = ''memory'', d_id = ''m'', d_tokens = 0, d_score = Num 50,
           d_reason = ''budget exhausted''\<rparr>]
     \<and> totalTokens (greedyPack ?ex 0) = 5"
    by (simp add: mk_item_def js_sort_Cons js_sort_Nil)
  have z: "(0::int) = 0 \<and> (\<forall>x\<in>set ?ez. 0 \<le> tokens x)
      \<and> sum_list (map tokens (filter (\<lambda>x. priority x = Required) ?ez)) = 0"
    by (simp add: mk_item_def)
  from greedyPack_nonpositive_budget[of 0 ?ez] z
  have "included (greedyPack ?ez 0)
        = filter (\<lambda>x. priority x = Required) ?ez
          @ filter (\<lambda>x. tokens x = 0)
              (js_sort greedy_cmp (filter (\<lambda>x. priority x \<noteq> Required) ?ez))
     \<and> dropped (greedyPack ?ez 0)
          = map (\<lambda>x. \<lparr>d_source = source x, d_id = item_id x, d_tokens = tokens x,
                       d_score = score x, d_reason = ''budget exhausted''\<rparr>)
              (filter (\<lambda>x. tokens x \<noteq> 0)
                (js_sort greedy_cmp (filter (\<lambda>x. priority x \<noteq> Required) ?ez)))"
    by blast
  moreover have "js_sort greedy_cmp (filter (\<lambda>x. priority x \<noteq> Required) ?ez) = ?ez"
    by code_simp
  ultimately have b: "included (greedyPack ?ez 0) = [mk_item ''m'' ''memory'' 0 Low (Num 10) 0]
     \<and> map d_id (dropped (greedyPack ?ez 0)) = [''p'']"
    by (simp add: mk_item_def)
  show ?thesis using a b by blast
qed

theorem greedyPack_zero_cost_counterexample:
  "priority (mk_item ''m'' ''memory'' 0 Medium (Num 50) 0) \<noteq> Required
   \<and> included (greedyPack [mk_item ''m'' ''memory'' 0 Medium (Num 50) 0] 0)
       = [mk_item ''m'' ''memory'' 0 Medium (Num 50) 0]
   \<and> dropped (greedyPack [mk_item ''m'' ''memory'' 0 Medium (Num 50) 0] 0) = []"
  by (simp add: greedyPack_unfold mk_item_def js_sort_Cons js_sort_Nil)

text \<open>
  Claim C3, amended. The optional items are walked in the order of a stable sort: by
  descending score, then by ascending token cost; items equal in both keep their order
  in the input list. The \<open>index\<close> field is not consulted. These three properties fix the
  order, so it is the same on every run. The admitted optional items and the dropped
  ones each appear in that order.
\<close>

theorem greedyPack_order:
  assumes "\<forall>x\<in>set items. is_double (score x)"
  shows "greedyPack items budget
       = admit_optional budget (js_sort greedy_cmp (filter (\<lambda>x. priority x \<noteq> Required) items))
           \<lparr>included = filter (\<lambda>x. priority x = Required) items, dropped = [],
            totalTokens = sum_list (map tokens (filter (\<lambda>x. priority x = Required) items))\<rparr>
     \<and> mset (js_sort greedy_cmp (filter (\<lambda>x. priority x \<noteq> Required) items))
          = mset (filter (\<lambda>x. priority x \<noteq> Required) items)
     \<and> sorted_wrt (\<lambda>a b. js_less (score b) (score a) \<or> (score a = score b \<and> tokens a \<le> tokens b))
          (js_sort greedy_cmp (filter (\<lambda>x. priority x \<noteq> Required) items))
     \<and> (\<forall>s t. filter (\<lambda>x. score x = s \<and> tokens x = t)
                  (js_sort greedy_cmp (filter (\<lambda>x. priority x \<noteq> Required) items))
               = filter (\<lambda>x. score x = s \<and> tokens x = t)
                  (filter (\<lambda>x. priority x \<noteq> Required) items))
     \<and> (\<exists>adm ds.
           included (greedyPack items budget) = filter (\<lambda>x. priority x = Required) items @ adm
           \<and> subseq adm (js_sort greedy_cmp (filter (\<lambda>x. priority x \<noteq> Required) items))
           \<and> dropped (greedyPack items budget) = map (\<lambda>x. \<lparr>d_source = source x, d_id = item_id x, d_tokens = tokens x,
            d_score = score x, d_reason = ''budget exhausted''\<rparr>) ds
           \<and> subseq ds (js_sort greedy_cmp (filter (\<lambda>x. priority x \<noteq> Required) items)))"
proof -
  let ?opt = "filter (\<lambda>x. priority x \<noteq> Required) items"
  let ?R = "\<lambda>a b. js_less (score b) (score a) \<or> (score a = score b \<and> tokens a \<le> tokens b)"
  have dbl: "is_double (score x)" if "x \<in> set ?opt" for x using assms that by simp
  have srt: "sorted_wrt ?R (js_sort greedy_cmp ?opt)"
  proof (rule sorted_wrt_js_sort)
    fix a b assume ab: "a \<in> set ?opt" "b \<in> set ?opt"
    note p = greedy_cmp_pos[OF dbl[OF ab(1)] dbl[OF ab(2)]]
    note q = greedy_cmp_pos[OF dbl[OF ab(2)] dbl[OF ab(1)]]
    { assume "\<not> js_pos (greedy_cmp a b)"
      then show "?R a b"
        using p js_less_total[OF dbl[OF ab(1)] dbl[OF ab(2)]] by auto }
    { assume "js_pos (greedy_cmp a b)"
      then show "?R b a" using p by auto }
    { fix c assume c: "c \<in> set ?opt" and "?R a b" "?R b c"
      then show "?R a c" using js_less_trans[of "score c" "score b" "score a"] by auto }
  qed
  have stable: "filter (\<lambda>x. score x = s \<and> tokens x = t) (js_sort greedy_cmp ?opt)
      = filter (\<lambda>x. score x = s \<and> tokens x = t) ?opt" for s t
    by (rule filter_js_sort) (simp add: greedy_cmp_equal_keys)
  obtain adm ds where
    h: "included (greedyPack items budget) = filter (\<lambda>x. priority x = Required) items @ adm"
       "dropped (greedyPack items budget) = map (\<lambda>x. \<lparr>d_source = source x, d_id = item_id x, d_tokens = tokens x,
            d_score = score x, d_reason = ''budget exhausted''\<rparr>) ds"
       "subseq adm (js_sort greedy_cmp ?opt)" "subseq ds (js_sort greedy_cmp ?opt)"
    by (rule greedyPack_shape)
  have ex: "\<exists>adm ds.
           included (greedyPack items budget) = filter (\<lambda>x. priority x = Required) items @ adm
           \<and> subseq adm (js_sort greedy_cmp ?opt)
           \<and> dropped (greedyPack items budget) = map (\<lambda>x. \<lparr>d_source = source x, d_id = item_id x, d_tokens = tokens x,
            d_score = score x, d_reason = ''budget exhausted''\<rparr>) ds
           \<and> subseq ds (js_sort greedy_cmp ?opt)"
    using h by blast
  show ?thesis
    using srt stable ex by (simp add: greedyPack_unfold mset_js_sort)
qed


lemma round64_tiers: "round64 100 = Num 100" "round64 50 = Num 50" "round64 10 = Num 10"
  by code_simp+

theorem greedyPack_order_witness:
  "list_all (\<lambda>x. is_double (score x))
      [mk_item ''big'' ''rag'' 150 Medium (Num 50) 0, mk_item ''small'' ''rag'' 50 Medium (Num 50) 1]
   \<and> sorted_wrt (\<lambda>a b. js_less (score b) (score a) \<or> (score a = score b \<and> tokens a \<le> tokens b))
        (js_sort greedy_cmp (filter (\<lambda>x. priority x \<noteq> Required)
          [mk_item ''big'' ''rag'' 150 Medium (Num 50) 0, mk_item ''small'' ''rag'' 50 Medium (Num 50) 1]))
   \<and> js_sort greedy_cmp (filter (\<lambda>x. priority x \<noteq> Required)
          [mk_item ''big'' ''rag'' 150 Medium (Num 50) 0, mk_item ''small'' ''rag'' 50 Medium (Num 50) 1])
        = [mk_item ''small'' ''rag'' 50 Medium (Num 50) 1, mk_item ''big'' ''rag'' 150 Medium (Num 50) 0]
   \<and> included (greedyPack
          [mk_item ''big'' ''rag'' 150 Medium (Num 50) 0, mk_item ''small'' ''rag'' 50 Medium (Num 50) 1] 100)
        = [mk_item ''small'' ''rag'' 50 Medium (Num 50) 1]"
proof -
  let ?ex = "[mk_item ''big'' ''rag'' 150 Medium (Num 50) 0, mk_item ''small'' ''rag'' 50 Medium (Num 50) 1]"
  have a: "list_all (\<lambda>x. is_double (score x)) ?ex"
    by (simp add: mk_item_def round64_tiers)
  have h: "\<forall>x\<in>set ?ex. is_double (score x)"
    by (simp add: mk_item_def round64_tiers)
  have b: "sorted_wrt (\<lambda>a b. js_less (score b) (score a) \<or> (score a = score b \<and> tokens a \<le> tokens b))
        (js_sort greedy_cmp (filter (\<lambda>x. priority x \<noteq> Required) ?ex))"
    using greedyPack_order[OF h, of 100] by blast
  have c: "js_sort greedy_cmp (filter (\<lambda>x. priority x \<noteq> Required) ?ex)
        = [mk_item ''small'' ''rag'' 50 Medium (Num 50) 1, mk_item ''big'' ''rag'' 150 Medium (Num 50) 0]"
    by code_simp
  have d: "included (greedyPack ?ex 100) = [mk_item ''small'' ''rag'' 50 Medium (Num 50) 1]"
    by code_simp
  show ?thesis using a b c d by (intro conjI)
qed

theorem greedyPack_index_tiebreak_counterexample:
  "score (mk_item ''a_1'' ''a'' 100 Medium (Num 50) 1) = score (mk_item ''b_0'' ''b'' 100 Medium (Num 50) 0)
   \<and> tokens (mk_item ''a_1'' ''a'' 100 Medium (Num 50) 1) = tokens (mk_item ''b_0'' ''b'' 100 Medium (Num 50) 0)
   \<and> index (mk_item ''b_0'' ''b'' 100 Medium (Num 50) 0) < index (mk_item ''a_1'' ''a'' 100 Medium (Num 50) 1)
   \<and> included (greedyPack [mk_item ''a_0'' ''a'' 100 Medium (Num 50) 0,
         mk_item ''a_1'' ''a'' 100 Medium (Num 50) 1, mk_item ''b_0'' ''b'' 100 Medium (Num 50) 0] 200)
       = [mk_item ''a_0'' ''a'' 100 Medium (Num 50) 0, mk_item ''a_1'' ''a'' 100 Medium (Num 50) 1]
   \<and> map d_id (dropped (greedyPack [mk_item ''a_0'' ''a'' 100 Medium (Num 50) 0,
         mk_item ''a_1'' ''a'' 100 Medium (Num 50) 1, mk_item ''b_0'' ''b'' 100 Medium (Num 50) 0] 200))
       = [''b_0'']"
  by code_simp

section \<open>Properties of the placement\<close>

lemma classify_eq:
  "classify xs sys qry hist rest =
     (sys @ filter (\<lambda>x. source x = ''system'') xs,
      qry @ filter (\<lambda>x. source x = ''query'') xs,
      hist @ filter (\<lambda>x. source x = ''history'') xs,
      rest @ filter floating xs)"
  by (induction xs arbitrary: sys qry hist rest) (auto simp: floating_def)

lemma classify_mset:
  "mset (filter (\<lambda>x. source x = ''system'') xs)
   + mset (filter floating xs)
   + mset (filter (\<lambda>x. source x = ''history'') xs)
   + mset (filter (\<lambda>x. source x = ''query'') xs) = mset xs"
  by (induction xs) (auto simp: floating_def)

lemma alternate_eq:
  "alternate i xs b m = (b @ nths xs {k. even (i + k)}, m @ nths xs {k. odd (i + k)})"
proof (induction xs arbitrary: i b m)
  case Nil
  show ?case by simp
next
  case (Cons x xs)
  show ?case
  proof (cases "even i")
    case True
    then show ?thesis by (simp add: Cons.IH nths_Cons even_iff_mod_2_eq_zero[symmetric])
  next
    case False
    then show ?thesis by (simp add: Cons.IH nths_Cons even_iff_mod_2_eq_zero[symmetric])
  qed
qed

lemma alternate_mset:
  "mset (fst (alternate i xs b m)) + mset (snd (alternate i xs b m)) = mset b + mset m + mset xs"
  by (induction xs arbitrary: i b m) auto

lemma nths_even_odd_mset:
  "mset (nths xs {k. even k}) + mset (nths xs {k. odd k}) = mset xs"
  using alternate_mset[of 0 xs "[]" "[]"] by (simp add: alternate_eq)

lemma applyPlacement_unfold:
  "applyPlacement items =
     push (filter (\<lambda>x. source x = ''system'') items) Beginning
     @ push (nths (js_sort score_desc_cmp (filter floating items)) {k. even k}) Beginning
     @ push (rev (nths (js_sort score_desc_cmp (filter floating items)) {k. odd k})) Middle
     @ push (js_sort index_cmp (filter (\<lambda>x. source x = ''history'') items)) End
     @ push (filter (\<lambda>x. source x = ''query'') items) End"
  by (simp add: applyPlacement_def classify_eq alternate_eq Let_def)

lemma score_desc_cmp_pos:
  "is_double (score a) \<Longrightarrow> is_double (score b) \<Longrightarrow>
   js_pos (score_desc_cmp a b) = js_less (score a) (score b)"
  by (simp add: score_desc_cmp_def js_sub_sign)

lemma sorted_score_desc:
  assumes "\<forall>x\<in>set xs. is_double (score x)"
  shows "sorted_wrt (\<lambda>a b. \<not> js_less (score a) (score b)) (js_sort score_desc_cmp xs)"
proof (rule sorted_wrt_js_sort)
  fix a b assume ab: "a \<in> set xs" "b \<in> set xs"
  then have d: "is_double (score a)" "is_double (score b)" using assms by blast+
  { assume "\<not> js_pos (score_desc_cmp a b)"
    then show "\<not> js_less (score a) (score b)" using score_desc_cmp_pos[OF d] by simp }
  { assume "js_pos (score_desc_cmp a b)"
    then show "\<not> js_less (score b) (score a)"
      using score_desc_cmp_pos[OF d] js_less_asym by blast }
  { fix c assume c: "c \<in> set xs" and n: "\<not> js_less (score a) (score b)" "\<not> js_less (score b) (score c)"
    have dc: "is_double (score c)" using assms c by blast
    show "\<not> js_less (score a) (score c)"
    proof
      assume l: "js_less (score a) (score c)"
      show False
      proof (cases "score b = score c")
        case True
        then show False using l n by simp
      next
        case False
        then have "js_less (score c) (score b)"
          using js_less_total[OF d(2) dc] n(2) by blast
        then have "js_less (score a) (score b)" using l js_less_trans by blast
        then show False using n(1) by simp
      qed
    qed }
qed

lemma stable_score_desc:
  "filter (\<lambda>x. score x = s) (js_sort score_desc_cmp xs) = filter (\<lambda>x. score x = s) xs"
proof (rule filter_js_sort)
  fix a b :: "'a ContextItem" assume "score a = s" "score b = s"
  then show "\<not> js_pos (score_desc_cmp a b)"
    using js_sub_self_falsy[of s] by (cases "js_sub s s") (auto simp: score_desc_cmp_def)
qed

lemma sorted_index:
  "sorted (map index (js_sort index_cmp xs))"
proof -
  have "sorted_wrt (\<lambda>a b. index a \<le> index b) (js_sort index_cmp xs)"
    by (rule sorted_wrt_js_sort) (auto simp: index_cmp_def)
  then show ?thesis by (simp add: sorted_wrt_map)
qed

lemma stable_index:
  "filter (\<lambda>x. index x = i) (js_sort index_cmp xs) = filter (\<lambda>x. index x = i) xs"
  by (rule filter_js_sort) (simp add: index_cmp_def)

lemma round64_example_scores:
  "round64 90 = Num 90" "round64 70 = Num 70" "round64 30 = Num 30"
  by code_simp+

text \<open>
  Claim C5. The floating items are ranked by a stable sort, descending by score; ranks
  0, 2, 4, ... follow the system items in rank order, tagged \<open>beginning\<close>; ranks
  1, 3, 5, ... come next in reverse rank order, tagged \<open>middle\<close>. Five floating items
  scored 90, 70, 50, 30, 10 come out as 90, 50, 10, 30, 70.
\<close>

theorem applyPlacement_edges_first:
  "((\<forall>x\<in>set items. is_double (score x)) \<longrightarrow>
      mset (js_sort score_desc_cmp (filter floating items)) = mset (filter floating items)
      \<and> sorted_wrt (\<lambda>a b. \<not> js_less (score a) (score b))
           (js_sort score_desc_cmp (filter floating items))
      \<and> (\<forall>s. filter (\<lambda>x. score x = s) (js_sort score_desc_cmp (filter floating items))
               = filter (\<lambda>x. score x = s) (filter floating items))
      \<and> applyPlacement items =
           push (filter (\<lambda>x. source x = ''system'') items) Beginning
           @ push (nths (js_sort score_desc_cmp (filter floating items)) {k. even k}) Beginning
           @ push (rev (nths (js_sort score_desc_cmp (filter floating items)) {k. odd k})) Middle
           @ push (js_sort index_cmp (filter (\<lambda>x. source x = ''history'') items)) End
           @ push (filter (\<lambda>x. source x = ''query'') items) End)
   \<and> map p_score (applyPlacement
        [mk_item ''r0'' ''rag'' 10 Medium (Num 90) 0, mk_item ''r1'' ''rag'' 10 Medium (Num 70) 1,
         mk_item ''r2'' ''rag'' 10 Medium (Num 50) 2, mk_item ''r3'' ''rag'' 10 Medium (Num 30) 3,
         mk_item ''r4'' ''rag'' 10 Medium (Num 10) 4])
       = [Num 90, Num 50, Num 10, Num 30, Num 70]
   \<and> map p_placement (applyPlacement
        [mk_item ''r0'' ''rag'' 10 Medium (Num 90) 0, mk_item ''r1'' ''rag'' 10 Medium (Num 70) 1,
         mk_item ''r2'' ''rag'' 10 Medium (Num 50) 2, mk_item ''r3'' ''rag'' 10 Medium (Num 30) 3,
         mk_item ''r4'' ''rag'' 10 Medium (Num 10) 4])
       = [Beginning, Beginning, Beginning, Middle, Middle]"
proof -
  have general: "mset (js_sort score_desc_cmp (filter floating items)) = mset (filter floating items)
      \<and> sorted_wrt (\<lambda>a b. \<not> js_less (score a) (score b))
           (js_sort score_desc_cmp (filter floating items))
      \<and> (\<forall>s. filter (\<lambda>x. score x = s) (js_sort score_desc_cmp (filter floating items))
               = filter (\<lambda>x. score x = s) (filter floating items))"
    if d: "\<forall>x\<in>set items. is_double (score x)"
  proof -
    have "\<forall>x\<in>set (filter floating items). is_double (score x)" using d by simp
    then have "sorted_wrt (\<lambda>a b. \<not> js_less (score a) (score b))
           (js_sort score_desc_cmp (filter floating items))"
      by (rule sorted_score_desc)
    then show ?thesis by (simp add: mset_js_sort stable_score_desc)
  qed
  have s: "map p_score (applyPlacement
        [mk_item ''r0'' ''rag'' 10 Medium (Num 90) 0, mk_item ''r1'' ''rag'' 10 Medium (Num 70) 1,
         mk_item ''r2'' ''rag'' 10 Medium (Num 50) 2, mk_item ''r3'' ''rag'' 10 Medium (Num 30) 3,
         mk_item ''r4'' ''rag'' 10 Medium (Num 10) 4])
       = [Num 90, Num 50, Num 10, Num 30, Num 70]"
    by code_simp
  have p: "map p_placement (applyPlacement
        [mk_item ''r0'' ''rag'' 10 Medium (Num 90) 0, mk_item ''r1'' ''rag'' 10 Medium (Num 70) 1,
         mk_item ''r2'' ''rag'' 10 Medium (Num 50) 2, mk_item ''r3'' ''rag'' 10 Medium (Num 30) 3,
         mk_item ''r4'' ''rag'' 10 Medium (Num 10) 4])
       = [Beginning, Beginning, Beginning, Middle, Middle]"
    by code_simp
  show ?thesis
    using general applyPlacement_unfold[of items] s p by blast
qed

theorem applyPlacement_edges_first_witness:
  "list_all (\<lambda>x. is_double (score x))
     [mk_item ''r3'' ''rag'' 10 Medium (Num 30) 3, mk_item ''r0'' ''rag'' 10 Medium (Num 90) 0,
      mk_item ''r4'' ''rag'' 10 Medium (Num 10) 4, mk_item ''r1'' ''rag'' 10 Medium (Num 70) 1,
      mk_item ''r2'' ''rag'' 10 Medium (Num 50) 2]
   \<and> sorted_wrt (\<lambda>a b. \<not> js_less (score a) (score b))
       (js_sort score_desc_cmp (filter floating
         [mk_item ''r3'' ''rag'' 10 Medium (Num 30) 3, mk_item ''r0'' ''rag'' 10 Medium (Num 90) 0,
          mk_item ''r4'' ''rag'' 10 Medium (Num 10) 4, mk_item ''r1'' ''rag'' 10 Medium (Num 70) 1,
          mk_item ''r2'' ''rag'' 10 Medium (Num 50) 2]))
   \<and> map p_id (applyPlacement
         [mk_item ''r3'' ''rag'' 10 Medium (Num 30) 3, mk_item ''r0'' ''rag'' 10 Medium (Num 90) 0,
          mk_item ''r4'' ''rag'' 10 Medium (Num 10) 4, mk_item ''r1'' ''rag'' 10 Medium (Num 70) 1,
          mk_item ''r2'' ''rag'' 10 Medium (Num 50) 2])
       = [''r0'', ''r2'', ''r4'', ''r3'', ''r1'']"
proof -
  let ?ex = "[mk_item ''r3'' ''rag'' 10 Medium (Num 30) 3, mk_item ''r0'' ''rag'' 10 Medium (Num 90) 0,
      mk_item ''r4'' ''rag'' 10 Medium (Num 10) 4, mk_item ''r1'' ''rag'' 10 Medium (Num 70) 1,
      mk_item ''r2'' ''rag'' 10 Medium (Num 50) 2]"
  have a: "list_all (\<lambda>x. is_double (score x)) ?ex"
    by (simp add: mk_item_def round64_tiers round64_example_scores)
  have h: "\<forall>x\<in>set ?ex. is_double (score x)"
    by (simp add: mk_item_def round64_tiers round64_example_scores)
  have b: "sorted_wrt (\<lambda>a b. \<not> js_less (score a) (score b))
       (js_sort score_desc_cmp (filter floating ?ex))"
    using applyPlacement_edges_first[of ?ex] h by blast
  have c: "map p_id (applyPlacement ?ex) = [''r0'', ''r2'', ''r4'', ''r3'', ''r1'']"
    by code_simp
  show ?thesis using a b c by (intro conjI)
qed

lemma push_fields:
  "map p_id (push xs pl) = map item_id xs"
  "map p_source (push xs pl) = map source xs"
  "map p_content (push xs pl) = map content xs"
  "map p_value (push xs pl) = map val xs"
  "map p_tokens (push xs pl) = map tokens xs"
  "map p_score (push xs pl) = map score xs"
  "map p_placement (push xs pl) = replicate (length xs) pl"
  "length (push xs pl) = length xs"
  by (simp_all add: push_def packed_def comp_def map_replicate_const)

lemma push_source_all:
  "\<forall>x\<in>set xs. P (source x) \<Longrightarrow> \<forall>p\<in>set (push xs pl). P (p_source p)"
  by (induction xs) (simp_all add: push_def packed_def)

text \<open>
  Claim C6. The output is the input rearranged and tagged. The arrangement is: the
  system items in input order, the even ranks of the floating items, their odd ranks
  reversed, the history items, the query items in input order; it is a permutation of
  the input, and the output carries, position by position, the id, source, content,
  value, tokens and score of the arranged items, with the tags \<open>beginning\<close>,
  \<open>middle\<close> and \<open>end\<close> on the blocks. In the output the system items are the first
  ones and nothing behind them is a system item; the query items are the last ones and
  nothing before them is a query item. The history items of the output are the history
  items of the input in ascending order of \<open>index\<close>, whatever the scores.
\<close>

theorem applyPlacement_rearranges:
  "(let ranked = js_sort score_desc_cmp (filter floating items);
        S = filter (\<lambda>x. source x = ''system'') items;
        B = nths ranked {k. even k};
        M = rev (nths ranked {k. odd k});
        H = js_sort index_cmp (filter (\<lambda>x. source x = ''history'') items);
        Q = filter (\<lambda>x. source x = ''query'') items;
        arranged = S @ B @ M @ H @ Q;
        out = applyPlacement items
    in mset arranged = mset items
       \<and> map p_id out = map item_id arranged
       \<and> map p_source out = map source arranged
       \<and> map p_content out = map content arranged
       \<and> map p_value out = map val arranged
       \<and> map p_tokens out = map tokens arranged
       \<and> map p_score out = map score arranged
       \<and> map p_placement out
            = replicate (length S + length B) Beginning @ replicate (length M) Middle
              @ replicate (length H + length Q) End
       \<and> (\<forall>p\<in>set (take (length S) out). p_source p = ''system'')
       \<and> (\<forall>p\<in>set (drop (length S) out). p_source p \<noteq> ''system'')
       \<and> (\<forall>p\<in>set (drop (length out - length Q) out). p_source p = ''query'')
       \<and> (\<forall>p\<in>set (take (length out - length Q) out). p_source p \<noteq> ''query'')
       \<and> mset (B @ M) = mset (filter floating items)
       \<and> mset H = mset (filter (\<lambda>x. source x = ''history'') items)
       \<and> sorted (map index H)
       \<and> filter (\<lambda>p. p_source p = ''history'') out = push H End
       \<and> map p_id (filter (\<lambda>p. p_source p = ''history'') out) = map item_id H
       \<and> out = push S Beginning @ push B Beginning @ push M Middle @ push H End @ push Q End)"
proof -
  define S where "S = filter (\<lambda>x. source x = ''system'') items"
  define Q where "Q = filter (\<lambda>x. source x = ''query'') items"
  define ranked where "ranked = js_sort score_desc_cmp (filter floating items)"
  define B where "B = nths ranked {k. even k}"
  define M where "M = rev (nths ranked {k. odd k})"
  define H where "H = js_sort index_cmp (filter (\<lambda>x. source x = ''history'') items)"
  define out where "out = applyPlacement items"
  note defs = S_def Q_def ranked_def B_def M_def H_def out_def
  have out: "out = push S Beginning @ push B Beginning @ push M Middle @ push H End @ push Q End"
    unfolding defs by (rule applyPlacement_unfold)
  have bm: "mset (B @ M) = mset (filter floating items)"
    unfolding B_def M_def ranked_def
    using nths_even_odd_mset[of "js_sort score_desc_cmp (filter floating items)"]
    by (simp add: mset_js_sort)
  have h: "mset H = mset (filter (\<lambda>x. source x = ''history'') items)"
    unfolding H_def by (simp add: mset_js_sort)
  have all: "mset (S @ B @ M @ H @ Q) = mset items"
  proof -
    have "mset (S @ B @ M @ H @ Q) = mset S + mset (B @ M) + mset H + mset Q"
      by simp
    also have "\<dots> = mset items"
      unfolding bm h unfolding S_def Q_def by (rule classify_mset)
    finally show ?thesis .
  qed
  have srt: "sorted (map index H)"
    unfolding H_def by (rule sorted_index)
  have setBM: "set (B @ M) = set (filter floating items)"
    using bm by (metis set_mset_mset)
  have srcS: "\<forall>x\<in>set S. source x = ''system''" unfolding S_def by simp
  have srcQ: "\<forall>x\<in>set Q. source x = ''query''" unfolding Q_def by simp
  have srcB: "\<forall>x\<in>set B. source x \<noteq> ''system'' \<and> source x \<noteq> ''query'' \<and> source x \<noteq> ''history''"
  proof
    fix x assume "x \<in> set B"
    then have "x \<in> set (filter floating items)" using setBM by auto
    then show "source x \<noteq> ''system'' \<and> source x \<noteq> ''query'' \<and> source x \<noteq> ''history''"
      by (simp add: floating_def)
  qed
  have srcM: "\<forall>x\<in>set M. source x \<noteq> ''system'' \<and> source x \<noteq> ''query'' \<and> source x \<noteq> ''history''"
  proof
    fix x assume "x \<in> set M"
    then have "x \<in> set (filter floating items)" using setBM by auto
    then show "source x \<noteq> ''system'' \<and> source x \<noteq> ''query'' \<and> source x \<noteq> ''history''"
      by (simp add: floating_def)
  qed
  have srcH: "\<forall>x\<in>set H. source x = ''history''"
    unfolding H_def by (simp add: set_js_sort)
  have f_id: "map p_id out = map item_id (S @ B @ M @ H @ Q)"
    and f_source: "map p_source out = map source (S @ B @ M @ H @ Q)"
    and f_content: "map p_content out = map content (S @ B @ M @ H @ Q)"
    and f_value: "map p_value out = map val (S @ B @ M @ H @ Q)"
    and f_tokens: "map p_tokens out = map tokens (S @ B @ M @ H @ Q)"
    and f_score: "map p_score out = map score (S @ B @ M @ H @ Q)"
    unfolding out by (simp_all add: push_fields)
  have f_place: "map p_placement out
            = replicate (length S + length B) Beginning @ replicate (length M) Middle
              @ replicate (length H + length Q) End"
    unfolding out by (simp add: push_fields replicate_add)
  have tk: "take (length S) out = push S Beginning"
    and dr: "drop (length S) out = push B Beginning @ push M Middle @ push H End @ push Q End"
    unfolding out by (simp_all add: push_fields)
  have len: "length out - length Q
      = length (push S Beginning @ push B Beginning @ push M Middle @ push H End)"
    unfolding out by (simp add: push_fields)
  have tq: "take (length out - length Q) out
      = push S Beginning @ push B Beginning @ push M Middle @ push H End"
    and dq: "drop (length out - length Q) out = push Q End"
    unfolding len unfolding out by simp_all
  have sys1: "\<forall>p\<in>set (take (length S) out). p_source p = ''system''"
    unfolding tk using srcS by (rule push_source_all)
  have nB: "\<forall>p\<in>set (push B Beginning). p_source p \<noteq> ''system'' \<and> p_source p \<noteq> ''query'' \<and> p_source p \<noteq> ''history''"
    using srcB by (rule push_source_all)
  have nM: "\<forall>p\<in>set (push M Middle). p_source p \<noteq> ''system'' \<and> p_source p \<noteq> ''query'' \<and> p_source p \<noteq> ''history''"
    using srcM by (rule push_source_all)
  have nH: "\<forall>p\<in>set (push H End). p_source p = ''history''"
    using srcH by (rule push_source_all)
  have nS: "\<forall>p\<in>set (push S Beginning). p_source p = ''system''"
    using srcS by (rule push_source_all)
  have nQ: "\<forall>p\<in>set (push Q End). p_source p = ''query''"
    using srcQ by (rule push_source_all)
  have sys2: "\<forall>p\<in>set (drop (length S) out). p_source p \<noteq> ''system''"
  proof
    fix p assume "p \<in> set (drop (length S) out)"
    then have "p \<in> set (push B Beginning) \<or> p \<in> set (push M Middle)
        \<or> p \<in> set (push H End) \<or> p \<in> set (push Q End)"
      unfolding dr by (simp only: set_append Un_iff)
    then show "p_source p \<noteq> ''system''"
      using nB nM nH nQ by fastforce
  qed
  have q1: "\<forall>p\<in>set (drop (length out - length Q) out). p_source p = ''query''"
    unfolding dq by (rule nQ)
  have q2: "\<forall>p\<in>set (take (length out - length Q) out). p_source p \<noteq> ''query''"
  proof
    fix p assume "p \<in> set (take (length out - length Q) out)"
    then have "p \<in> set (push S Beginning) \<or> p \<in> set (push B Beginning)
        \<or> p \<in> set (push M Middle) \<or> p \<in> set (push H End)"
      unfolding tq by (simp only: set_append Un_iff)
    then show "p_source p \<noteq> ''query''"
      using nS nB nM nH by fastforce
  qed
  have fS: "filter (\<lambda>p. p_source p = ''history'') (push S Beginning) = []"
    using nS by (simp add: filter_empty_conv)
  have fB: "filter (\<lambda>p. p_source p = ''history'') (push B Beginning) = []"
    using nB by (simp add: filter_empty_conv)
  have fM: "filter (\<lambda>p. p_source p = ''history'') (push M Middle) = []"
    using nM by (simp add: filter_empty_conv)
  have fQ: "filter (\<lambda>p. p_source p = ''history'') (push Q End) = []"
    using nQ by (simp add: filter_empty_conv)
  have fH: "filter (\<lambda>p. p_source p = ''history'') (push H End) = push H End"
    using nH by (simp add: filter_id_conv)
  have hist: "filter (\<lambda>p. p_source p = ''history'') out = push H End"
    unfolding out by (simp only: filter_append fS fB fM fQ fH append_Nil append_Nil2)
  have hist_id: "map p_id (filter (\<lambda>p. p_source p = ''history'') out) = map item_id H"
    unfolding hist by (simp add: push_fields)
  show ?thesis
    unfolding Let_def
    using all f_id f_source f_content f_value f_tokens f_score f_place sys1 sys2 q1 q2 bm h
      srt hist hist_id out
    unfolding defs
    by (intro conjI)
qed

theorem applyPlacement_rearranges_witness:
  "applyPlacement
      [mk_item ''h_0'' ''history'' 10 High (Num 50) 0, mk_item ''h_2'' ''history'' 12 High (Num 90) 2,
       mk_item ''sys'' ''system'' 50 Required PosInf 0,
       mk_item ''h_1'' ''history'' 11 High (Num 70) 1, mk_item ''q'' ''query'' 5 Required PosInf 0,
       mk_item ''rag_0'' ''rag'' 20 Medium (Num 50) 0]
     = [\<lparr>p_id = ''sys'', p_source = ''system'', p_content = ''sys'', p_value = Str ''sys'',
          p_tokens = 50, p_score = PosInf, p_placement = Beginning\<rparr>,
        \<lparr>p_id = ''rag_0'', p_source = ''rag'', p_content = ''rag_0'', p_value = Str ''rag_0'',
          p_tokens = 20, p_score = Num 50, p_placement = Beginning\<rparr>,
        \<lparr>p_id = ''h_0'', p_source = ''history'', p_content = ''h_0'', p_value = Str ''h_0'',
          p_tokens = 10, p_score = Num 50, p_placement = End\<rparr>,
        \<lparr>p_id = ''h_1'', p_source = ''history'', p_content = ''h_1'', p_value = Str ''h_1'',
          p_tokens = 11, p_score = Num 70, p_placement = End\<rparr>,
        \<lparr>p_id = ''h_2'', p_source = ''history'', p_content = ''h_2'', p_value = Str ''h_2'',
          p_tokens = 12, p_score = Num 90, p_placement = End\<rparr>,
        \<lparr>p_id = ''q'', p_source = ''query'', p_content = ''q'', p_value = Str ''q'',
          p_tokens = 5, p_score = PosInf, p_placement = End\<rparr>]
   \<and> mset (map p_tokens (applyPlacement
      [mk_item ''h_0'' ''history'' 10 High (Num 50) 0, mk_item ''h_2'' ''history'' 12 High (Num 90) 2,
       mk_item ''sys'' ''system'' 50 Required PosInf 0,
       mk_item ''h_1'' ''history'' 11 High (Num 70) 1, mk_item ''q'' ''query'' 5 Required PosInf 0,
       mk_item ''rag_0'' ''rag'' 20 Medium (Num 50) 0]))
     = mset (map tokens
      [mk_item ''h_0'' ''history'' 10 High (Num 50) 0, mk_item ''h_2'' ''history'' 12 High (Num 90) 2,
       mk_item ''sys'' ''system'' 50 Required PosInf 0,
       mk_item ''h_1'' ''history'' 11 High (Num 70) 1, mk_item ''q'' ''query'' 5 Required PosInf 0,
       mk_item ''rag_0'' ''rag'' 20 Medium (Num 50) 0])
   \<and> sorted (map index (js_sort index_cmp (filter (\<lambda>x. source x = ''history'')
      [mk_item ''h_0'' ''history'' 10 High (Num 50) 0, mk_item ''h_2'' ''history'' 12 High (Num 90) 2,
       mk_item ''sys'' ''system'' 50 Required PosInf 0,
       mk_item ''h_1'' ''history'' 11 High (Num 70) 1, mk_item ''q'' ''query'' 5 Required PosInf 0,
       mk_item ''rag_0'' ''rag'' 20 Medium (Num 50) 0])))"
proof -
  let ?ex = "[mk_item ''h_0'' ''history'' 10 High (Num 50) 0, mk_item ''h_2'' ''history'' 12 High (Num 90) 2,
       mk_item ''sys'' ''system'' 50 Required PosInf 0,
       mk_item ''h_1'' ''history'' 11 High (Num 70) 1, mk_item ''q'' ''query'' 5 Required PosInf 0,
       mk_item ''rag_0'' ''rag'' 20 Medium (Num 50) 0]"
  let ?arr = "filter (\<lambda>x. source x = ''system'') ?ex
      @ nths (js_sort score_desc_cmp (filter floating ?ex)) {k. even k}
      @ rev (nths (js_sort score_desc_cmp (filter floating ?ex)) {k. odd k})
      @ js_sort index_cmp (filter (\<lambda>x. source x = ''history'') ?ex)
      @ filter (\<lambda>x. source x = ''query'') ?ex"
  note t = applyPlacement_rearranges[of ?ex, unfolded Let_def]
  have p: "mset ?arr = mset ?ex" using t by blast
  have f: "map p_tokens (applyPlacement ?ex) = map tokens ?arr" using t by blast
  have "mset (map p_tokens (applyPlacement ?ex)) = image_mset tokens (mset ?arr)"
    unfolding f by (simp only: mset_map)
  also have "\<dots> = mset (map tokens ?ex)" unfolding p by (simp only: mset_map)
  finally have a: "mset (map p_tokens (applyPlacement ?ex)) = mset (map tokens ?ex)" .
  have b: "sorted (map index (js_sort index_cmp (filter (\<lambda>x. source x = ''history'') ?ex)))"
    using t by blast
  have c: "applyPlacement ?ex
     = [\<lparr>p_id = ''sys'', p_source = ''system'', p_content = ''sys'', p_value = Str ''sys'',
          p_tokens = 50, p_score = PosInf, p_placement = Beginning\<rparr>,
        \<lparr>p_id = ''rag_0'', p_source = ''rag'', p_content = ''rag_0'', p_value = Str ''rag_0'',
          p_tokens = 20, p_score = Num 50, p_placement = Beginning\<rparr>,
        \<lparr>p_id = ''h_0'', p_source = ''history'', p_content = ''h_0'', p_value = Str ''h_0'',
          p_tokens = 10, p_score = Num 50, p_placement = End\<rparr>,
        \<lparr>p_id = ''h_1'', p_source = ''history'', p_content = ''h_1'', p_value = Str ''h_1'',
          p_tokens = 11, p_score = Num 70, p_placement = End\<rparr>,
        \<lparr>p_id = ''h_2'', p_source = ''history'', p_content = ''h_2'', p_value = Str ''h_2'',
          p_tokens = 12, p_score = Num 90, p_placement = End\<rparr>,
        \<lparr>p_id = ''q'', p_source = ''query'', p_content = ''q'', p_value = Str ''q'',
          p_tokens = 5, p_score = PosInf, p_placement = End\<rparr>]"
    by code_simp
  show ?thesis using c a b by (intro conjI)
qed


section \<open>Properties of the constraint pass\<close>

lemma findIndex_None: "findIndex P xs = None \<longleftrightarrow> (\<forall>x\<in>set xs. \<not> P x)"
  by (induction xs) (auto split: option.splits)

lemma findIndex_Some:
  "findIndex P xs = Some i \<Longrightarrow> i < length xs \<and> P (xs ! i) \<and> (\<forall>j<i. \<not> P (xs ! j))"
proof (induction xs arbitrary: i)
  case Nil
  then show ?case by simp
next
  case (Cons x xs)
  show ?case
  proof (cases "P x")
    case True
    then show ?thesis using Cons.prems by simp
  next
    case False
    then obtain k where k: "findIndex P xs = Some k" "i = Suc k"
      using Cons.prems by (auto split: option.splits)
    from Cons.IH[OF k(1)] have "k < length xs \<and> P (xs ! k) \<and> (\<forall>j<k. \<not> P (xs ! j))" .
    then show ?thesis using False k(2) by (auto simp: nth_Cons split: nat.splits)
  qed
qed

text \<open>With distinct ids, cutting out the first item of an id leaves the items of other ids.\<close>

lemma splice_distinct:
  assumes "distinct (map item_id xs)" and "i < length xs"
  shows "take i xs @ drop (Suc i) xs = filter (\<lambda>x. item_id x \<noteq> item_id (xs ! i)) xs"
  using assms
proof (induction xs arbitrary: i)
  case Nil
  then show ?case by simp
next
  case (Cons x xs)
  show ?case
  proof (cases i)
    case 0
    have "\<forall>y\<in>set xs. item_id y \<noteq> item_id x" using Cons.prems(1) by (force simp: image_iff)
    then have "filter (\<lambda>y. item_id y \<noteq> item_id x) xs = xs" by (simp add: filter_id_conv)
    then show ?thesis using 0 by simp
  next
    case (Suc k)
    then have k: "k < length xs" using Cons.prems(2) by simp
    have d: "distinct (map item_id xs)" using Cons.prems(1) by simp
    have "xs ! k \<in> set xs" using k by simp
    then have "item_id x \<noteq> item_id (xs ! k)" using Cons.prems(1) by (force simp: image_iff)
    then show ?thesis using Suc Cons.IH[OF d k] by simp
  qed
qed

lemma availableMap_Some: "availableMap avail k = Some dep \<Longrightarrow> item_id dep = k \<and> dep \<in> set avail"
  by (auto simp: availableMap_def dest!: map_of_SomeD)

lemma availableMap_None: "availableMap avail k = None \<longleftrightarrow> k \<notin> set (map item_id avail)"
  by (simp add: availableMap_def map_of_eq_None_iff image_image)

lemma enforce_inv_init: "distinct (map item_id incl) \<Longrightarrow> enforce_inv (enforce_init incl)"
  by (simp add: enforce_inv_def enforce_init_def)

lemma sum_list_filter_out:
  assumes "distinct (map item_id xs)" and "t \<in> set xs"
  shows "sum_list (map tokens (filter (\<lambda>x. item_id x \<noteq> item_id t) xs))
     = sum_list (map tokens xs) - tokens t"
  using assms
proof (induction xs)
  case Nil
  then show ?case by simp
next
  case (Cons x xs)
  show ?case
  proof (cases "x = t")
    case True
    have "\<forall>y\<in>set xs. item_id y \<noteq> item_id t" using Cons.prems(1) True by (force simp: image_iff)
    then have "filter (\<lambda>y. item_id y \<noteq> item_id t) xs = xs" by (simp add: filter_id_conv)
    then show ?thesis using True by simp
  next
    case False
    then have t: "t \<in> set xs" using Cons.prems(2) by simp
    then have "item_id x \<noteq> item_id t" using Cons.prems(1) by (force simp: image_iff)
    then show ?thesis using Cons.IH t Cons.prems(1) by simp
  qed
qed


lemma enforce_loop_append:
  "enforce_loop budget amap (xs @ ys) st = enforce_loop budget amap ys (enforce_loop budget amap xs st)"
  by (induction xs arbitrary: st) simp_all

lemma enforce_step_skip:
  "ifIncluded c \<notin> cs_ids st \<or> thenRequire c \<in> cs_ids st \<or> amap (thenRequire c) = None
   \<Longrightarrow> enforce_step budget amap st c = st"
  by (auto simp: enforce_step_def)

lemma enforce_step_add:
  "ifIncluded c \<in> cs_ids st \<Longrightarrow> thenRequire c \<notin> cs_ids st \<Longrightarrow> amap (thenRequire c) = Some dep
   \<Longrightarrow> cs_tokens st + tokens dep \<le> budget
   \<Longrightarrow> enforce_step budget amap st c
       = st\<lparr>cs_included := cs_included st @ [dep], cs_ids := insert (item_id dep) (cs_ids st),
            cs_tokens := cs_tokens st + tokens dep, cs_added := cs_added st @ [dep]\<rparr>"
  by (simp add: enforce_step_def)

lemma enforce_step_evict:
  assumes inv: "enforce_inv st"
    and c: "ifIncluded c \<in> cs_ids st" "thenRequire c \<notin> cs_ids st" "amap (thenRequire c) = Some dep"
    and over: "\<not> cs_tokens st + tokens dep \<le> budget"
  shows "\<exists>trigger. trigger \<in> set (cs_included st) \<and> item_id trigger = ifIncluded c
     \<and> (if priority trigger \<noteq> Required
         then enforce_step budget amap st c
            = st\<lparr>cs_included := filter (\<lambda>x. item_id x \<noteq> ifIncluded c) (cs_included st),
                 cs_ids := cs_ids st - {ifIncluded c},
                 cs_tokens := cs_tokens st - tokens trigger,
                 cs_removed := cs_removed st @ [trigger]\<rparr>
         else enforce_step budget amap st c = st)"
proof -
  have d: "distinct (map item_id (cs_included st))"
    and ids: "cs_ids st = set (map item_id (cs_included st))"
    using inv by (simp_all add: enforce_inv_def)
  have "\<not> (\<forall>x\<in>set (cs_included st). \<not> item_id x = ifIncluded c)"
    using c(1) ids by auto
  then obtain i where i: "findIndex (\<lambda>x. item_id x = ifIncluded c) (cs_included st) = Some i"
    using findIndex_None[of "\<lambda>x. item_id x = ifIncluded c" "cs_included st"] by auto
  from findIndex_Some[OF i]
  have il: "i < length (cs_included st)" and iid: "item_id (cs_included st ! i) = ifIncluded c"
    by simp_all
  let ?t = "cs_included st ! i"
  have mem: "?t \<in> set (cs_included st)" using il by simp
  have cut: "take i (cs_included st) @ drop (Suc i) (cs_included st)
      = filter (\<lambda>x. item_id x \<noteq> ifIncluded c) (cs_included st)"
    using splice_distinct[OF d il] iid by simp
  have step: "enforce_step budget amap st c
      = (if priority ?t \<noteq> Required
         then st\<lparr>cs_included := filter (\<lambda>x. item_id x \<noteq> ifIncluded c) (cs_included st),
                 cs_ids := cs_ids st - {ifIncluded c},
                 cs_tokens := cs_tokens st - tokens ?t,
                 cs_removed := cs_removed st @ [?t]\<rparr>
         else st)"
    using c over i cut iid by (simp add: enforce_step_def Let_def)
  show ?thesis
    by (rule exI[of _ ?t]) (use mem iid step in simp)
qed

lemma enforce_step_inv:
  assumes inv: "enforce_inv st" and key: "\<And>k dep. amap k = Some dep \<Longrightarrow> item_id dep = k"
  shows "enforce_inv (enforce_step budget amap st c)"
proof -
  have d: "distinct (map item_id (cs_included st))"
    and ids: "cs_ids st = set (map item_id (cs_included st))"
    and tk: "cs_tokens st = sum_list (map tokens (cs_included st))"
    using inv by (simp_all add: enforce_inv_def)
  consider (skip) "ifIncluded c \<notin> cs_ids st \<or> thenRequire c \<in> cs_ids st \<or> amap (thenRequire c) = None"
    | (add) dep where "ifIncluded c \<in> cs_ids st" "thenRequire c \<notin> cs_ids st"
        "amap (thenRequire c) = Some dep" "cs_tokens st + tokens dep \<le> budget"
    | (evict) dep where "ifIncluded c \<in> cs_ids st" "thenRequire c \<notin> cs_ids st"
        "amap (thenRequire c) = Some dep" "\<not> cs_tokens st + tokens dep \<le> budget"
    by (cases "amap (thenRequire c)") auto
  then show ?thesis
  proof cases
    case skip
    then show ?thesis using inv by (simp add: enforce_step_skip)
  next
    case add
    have "item_id dep = thenRequire c" using key add(3) by simp
    then have "item_id dep \<notin> set (map item_id (cs_included st))" using add(2) ids by simp
    then show ?thesis
      using d ids tk by (simp add: enforce_step_add[where amap=amap and c=c and st=st, OF add] enforce_inv_def)
  next
    case evict
    from enforce_step_evict[where amap=amap and c=c and st=st, OF inv evict]
    obtain t where t: "t \<in> set (cs_included st)" "item_id t = ifIncluded c"
      and s: "if priority t \<noteq> Required
         then enforce_step budget amap st c
            = st\<lparr>cs_included := filter (\<lambda>x. item_id x \<noteq> ifIncluded c) (cs_included st),
                 cs_ids := cs_ids st - {ifIncluded c},
                 cs_tokens := cs_tokens st - tokens t,
                 cs_removed := cs_removed st @ [t]\<rparr>
         else enforce_step budget amap st c = st"
      by blast
    show ?thesis
    proof (cases "priority t \<noteq> Required")
      case True
      have a: "distinct (map item_id (filter (\<lambda>x. item_id x \<noteq> ifIncluded c) (cs_included st)))"
        using d by (simp add: distinct_map_filter)
      have b: "cs_ids st - {ifIncluded c}
          = set (map item_id (filter (\<lambda>x. item_id x \<noteq> ifIncluded c) (cs_included st)))"
        using ids by auto
      have e: "sum_list (map tokens (filter (\<lambda>x. item_id x \<noteq> ifIncluded c) (cs_included st)))
          = cs_tokens st - tokens t"
        using sum_list_filter_out[OF d t(1)] t(2) tk by simp
      show ?thesis using s True a b e by (simp add: enforce_inv_def)
    next
      case False
      then show ?thesis using s inv by simp
    qed
  qed
qed

lemma enforce_loop_inv:
  assumes "enforce_inv st" and "\<And>k dep. amap k = Some dep \<Longrightarrow> item_id dep = k"
  shows "enforce_inv (enforce_loop budget amap cs st)"
  using assms(1)
proof (induction cs arbitrary: st)
  case Nil
  then show ?case by simp
next
  case (Cons c cs)
  have "enforce_inv (enforce_step budget amap st c)"
    using Cons.prems assms(2) by (rule enforce_step_inv)
  then show ?case using Cons.IH by simp
qed

lemma enforceConstraints_loop:
  "enforceConstraints incl avail cs budget
     = \<lparr>c_included = cs_included (enforce_loop budget (availableMap avail) cs (enforce_init incl)),
        added = cs_added (enforce_loop budget (availableMap avail) cs (enforce_init incl)),
        removed = cs_removed (enforce_loop budget (availableMap avail) cs (enforce_init incl))\<rparr>"
  by (cases cs) (simp_all add: enforceConstraints_def enforce_init_def Let_def)

lemma map_of_find:
  "map_of (map (\<lambda>i. (f i, i)) xs) k = find (\<lambda>x. f x = k) xs"
  by (induction xs) simp_all

lemma find_rev_availableMap:
  "find (\<lambda>x. item_id x = k) (rev avail) = availableMap avail k"
  by (simp add: availableMap_def rev_map map_of_find)

lemma find_distinct:
  assumes "distinct (map item_id xs)" and "t \<in> set xs"
  shows "find (\<lambda>x. item_id x = item_id t) xs = Some t"
  using assms
proof (induction xs)
  case Nil
  then show ?case by simp
next
  case (Cons x xs)
  show ?case
  proof (cases "x = t")
    case True
    then show ?thesis by simp
  next
    case False
    then have t: "t \<in> set xs" using Cons.prems(2) by simp
    then have "item_id x \<noteq> item_id t" using Cons.prems(1) by (force simp: image_iff)
    then show ?thesis using Cons.IH t Cons.prems(1) by simp
  qed
qed

lemma mset_filter_out:
  assumes "distinct (map item_id xs)" and "t \<in> set xs"
  shows "mset (filter (\<lambda>x. item_id x \<noteq> item_id t) xs) + {#t#} = mset xs"
  using assms
proof (induction xs)
  case Nil
  then show ?case by simp
next
  case (Cons x xs)
  show ?case
  proof (cases "x = t")
    case True
    have "\<forall>y\<in>set xs. item_id y \<noteq> item_id t" using Cons.prems(1) True by (force simp: image_iff)
    then have "filter (\<lambda>y. item_id y \<noteq> item_id t) xs = xs" by (simp add: filter_id_conv)
    then show ?thesis using True by simp
  next
    case False
    then have t: "t \<in> set xs" using Cons.prems(2) by simp
    then have "item_id x \<noteq> item_id t" using Cons.prems(1) by (force simp: image_iff)
    then show ?thesis using Cons.IH t Cons.prems(1) by simp
  qed
qed

text \<open>One round of the loop is one step of the specification's reconciliation.\<close>

lemma enforce_step_refines:
  assumes inv: "enforce_inv st"
  shows "(cs_included (enforce_step budget (availableMap avail) st c),
          cs_added (enforce_step budget (availableMap avail) st c),
          cs_removed (enforce_step budget (availableMap avail) st c))
       = spec_reconcile_step budget avail (cs_included st, cs_added st, cs_removed st) c"
proof -
  let ?amap = "availableMap avail"
  have d: "distinct (map item_id (cs_included st))"
    and ids: "cs_ids st = set (map item_id (cs_included st))"
    and tk: "cs_tokens st = sum_list (map tokens (cs_included st))"
    using inv by (simp_all add: enforce_inv_def)
  consider (skip) "ifIncluded c \<notin> cs_ids st \<or> thenRequire c \<in> cs_ids st \<or> ?amap (thenRequire c) = None"
    | (add) dep where "ifIncluded c \<in> cs_ids st" "thenRequire c \<notin> cs_ids st"
        "?amap (thenRequire c) = Some dep" "cs_tokens st + tokens dep \<le> budget"
    | (evict) dep where "ifIncluded c \<in> cs_ids st" "thenRequire c \<notin> cs_ids st"
        "?amap (thenRequire c) = Some dep" "\<not> cs_tokens st + tokens dep \<le> budget"
    by (cases "?amap (thenRequire c)") auto
  then show ?thesis
  proof cases
    case skip
    have s: "enforce_step budget ?amap st c = st" using skip by (rule enforce_step_skip)
    show ?thesis unfolding s using skip ids
      by (auto simp: find_rev_availableMap)
  next
    case add
    show ?thesis
      unfolding enforce_step_add[where amap="?amap" and c=c and st=st, OF add]
      using add ids tk by (simp add: find_rev_availableMap)
  next
    case evict
    from enforce_step_evict[where amap="?amap" and c=c and st=st, OF inv evict]
    obtain t where t: "t \<in> set (cs_included st)" "item_id t = ifIncluded c"
      and s: "if priority t \<noteq> Required
         then enforce_step budget ?amap st c
            = st\<lparr>cs_included := filter (\<lambda>x. item_id x \<noteq> ifIncluded c) (cs_included st),
                 cs_ids := cs_ids st - {ifIncluded c},
                 cs_tokens := cs_tokens st - tokens t,
                 cs_removed := cs_removed st @ [t]\<rparr>
         else enforce_step budget ?amap st c = st"
      by blast
    have f: "find (\<lambda>x. item_id x = ifIncluded c) (cs_included st) = Some t"
      using find_distinct[OF d t(1)] t(2) by simp
    show ?thesis
    proof (cases "priority t = Required")
      case True
      then have e: "enforce_step budget ?amap st c = st" using s by simp
      show ?thesis unfolding e using evict ids tk f True
        by (simp add: find_rev_availableMap)
    next
      case False
      then have e: "enforce_step budget ?amap st c
            = st\<lparr>cs_included := filter (\<lambda>x. item_id x \<noteq> ifIncluded c) (cs_included st),
                 cs_ids := cs_ids st - {ifIncluded c},
                 cs_tokens := cs_tokens st - tokens t,
                 cs_removed := cs_removed st @ [t]\<rparr>"
        using s by simp
      show ?thesis unfolding e using evict ids tk f False
        by (simp add: find_rev_availableMap)
    qed
  qed
qed

lemma enforce_loop_refines:
  assumes "enforce_inv st"
  shows "(cs_included (enforce_loop budget (availableMap avail) cs st),
          cs_added (enforce_loop budget (availableMap avail) cs st),
          cs_removed (enforce_loop budget (availableMap avail) cs st))
       = foldl (spec_reconcile_step budget avail) (cs_included st, cs_added st, cs_removed st) cs"
  using assms
proof (induction cs arbitrary: st)
  case Nil
  then show ?case by simp
next
  case (Cons c cs)
  have key: "\<And>k dep. availableMap avail k = Some dep \<Longrightarrow> item_id dep = k"
    using availableMap_Some by blast
  have i: "enforce_inv (enforce_step budget (availableMap avail) st c)"
    using Cons.prems key by (rule enforce_step_inv)
  show ?case
    using Cons.IH[OF i] enforce_step_refines[OF Cons.prems, of budget avail c] by simp
qed

text \<open>
  What a round moves: an admitted item leaves the array only into \<open>removed\<close>, and only
  when it is not required; an item enters the array only from the pool, and is logged
  in \<open>added\<close>.
\<close>

lemma enforce_step_conserve:
  assumes inv: "enforce_inv st"
  shows "mset (cs_included (enforce_step budget (availableMap avail) st c))
          + mset (cs_removed (enforce_step budget (availableMap avail) st c)) + mset (cs_added st)
       = mset (cs_included st) + mset (cs_removed st)
          + mset (cs_added (enforce_step budget (availableMap avail) st c))"
    and "set (cs_removed (enforce_step budget (availableMap avail) st c))
       \<subseteq> set (cs_removed st) \<union> {x. priority x \<noteq> Required}"
    and "set (cs_added (enforce_step budget (availableMap avail) st c))
       \<subseteq> set (cs_added st) \<union> set avail"
proof -
  let ?amap = "availableMap avail"
  let ?st' = "enforce_step budget ?amap st c"
  have d: "distinct (map item_id (cs_included st))"
    using inv by (simp add: enforce_inv_def)
  consider (skip) "ifIncluded c \<notin> cs_ids st \<or> thenRequire c \<in> cs_ids st \<or> ?amap (thenRequire c) = None"
    | (add) dep where "ifIncluded c \<in> cs_ids st" "thenRequire c \<notin> cs_ids st"
        "?amap (thenRequire c) = Some dep" "cs_tokens st + tokens dep \<le> budget"
    | (evict) dep where "ifIncluded c \<in> cs_ids st" "thenRequire c \<notin> cs_ids st"
        "?amap (thenRequire c) = Some dep" "\<not> cs_tokens st + tokens dep \<le> budget"
    by (cases "?amap (thenRequire c)") auto
  then have "mset (cs_included ?st') + mset (cs_removed ?st') + mset (cs_added st)
       = mset (cs_included st) + mset (cs_removed st) + mset (cs_added ?st')
     \<and> set (cs_removed ?st') \<subseteq> set (cs_removed st) \<union> {x. priority x \<noteq> Required}
     \<and> set (cs_added ?st') \<subseteq> set (cs_added st) \<union> set avail"
  proof cases
    case skip
    have s: "?st' = st" using skip by (rule enforce_step_skip)
    show ?thesis unfolding s by auto
  next
    case add
    have m: "dep \<in> set avail" using availableMap_Some[OF add(3)] by simp
    show ?thesis
      unfolding enforce_step_add[where amap="?amap" and c=c and st=st, OF add]
      using m by auto
  next
    case evict
    from enforce_step_evict[where amap="?amap" and c=c and st=st, OF inv evict]
    obtain t where t: "t \<in> set (cs_included st)" "item_id t = ifIncluded c"
      and s: "if priority t \<noteq> Required
         then ?st'
            = st\<lparr>cs_included := filter (\<lambda>x. item_id x \<noteq> ifIncluded c) (cs_included st),
                 cs_ids := cs_ids st - {ifIncluded c},
                 cs_tokens := cs_tokens st - tokens t,
                 cs_removed := cs_removed st @ [t]\<rparr>
         else ?st' = st"
      by blast
    show ?thesis
    proof (cases "priority t = Required")
      case True
      then have e: "?st' = st" using s by simp
      show ?thesis unfolding e by auto
    next
      case False
      then have e: "?st'
            = st\<lparr>cs_included := filter (\<lambda>x. item_id x \<noteq> ifIncluded c) (cs_included st),
                 cs_ids := cs_ids st - {ifIncluded c},
                 cs_tokens := cs_tokens st - tokens t,
                 cs_removed := cs_removed st @ [t]\<rparr>"
        using s by simp
      have m: "mset (filter (\<lambda>x. item_id x \<noteq> ifIncluded c) (cs_included st)) + {#t#}
          = mset (cs_included st)"
        using mset_filter_out[OF d t(1)] t(2) by simp
      show ?thesis unfolding e using m False by auto
    qed
  qed
  then show "mset (cs_included ?st') + mset (cs_removed ?st') + mset (cs_added st)
       = mset (cs_included st) + mset (cs_removed st) + mset (cs_added ?st')"
    and "set (cs_removed ?st') \<subseteq> set (cs_removed st) \<union> {x. priority x \<noteq> Required}"
    and "set (cs_added ?st') \<subseteq> set (cs_added st) \<union> set avail"
    by blast+
qed

lemma enforce_loop_conserve:
  assumes "enforce_inv st"
  shows "mset (cs_included (enforce_loop budget (availableMap avail) cs st))
          + mset (cs_removed (enforce_loop budget (availableMap avail) cs st)) + mset (cs_added st)
       = mset (cs_included st) + mset (cs_removed st)
          + mset (cs_added (enforce_loop budget (availableMap avail) cs st))
     \<and> set (cs_removed (enforce_loop budget (availableMap avail) cs st))
       \<subseteq> set (cs_removed st) \<union> {x. priority x \<noteq> Required}
     \<and> set (cs_added (enforce_loop budget (availableMap avail) cs st))
       \<subseteq> set (cs_added st) \<union> set avail"
  using assms
proof (induction cs arbitrary: st)
  case Nil
  then show ?case by simp
next
  case (Cons c cs)
  let ?amap = "availableMap avail"
  let ?s1 = "enforce_step budget ?amap st c"
  let ?s2 = "enforce_loop budget ?amap cs ?s1"
  have key: "\<And>k dep. ?amap k = Some dep \<Longrightarrow> item_id dep = k"
    using availableMap_Some by blast
  have i: "enforce_inv ?s1"
    using Cons.prems key by (rule enforce_step_inv)
  note a = enforce_step_conserve[OF Cons.prems, of budget avail c]
  note b = Cons.IH[OF i]
  have m1: "mset (cs_included ?s1) + mset (cs_removed ?s1) + mset (cs_added st)
       = mset (cs_included st) + mset (cs_removed st) + mset (cs_added ?s1)"
    by (rule a(1))
  have m2: "mset (cs_included ?s2) + mset (cs_removed ?s2) + mset (cs_added ?s1)
       = mset (cs_included ?s1) + mset (cs_removed ?s1) + mset (cs_added ?s2)"
    using b by blast
  have "(mset (cs_included ?s2) + mset (cs_removed ?s2) + mset (cs_added st)) + mset (cs_added ?s1)
      = (mset (cs_included ?s2) + mset (cs_removed ?s2) + mset (cs_added ?s1)) + mset (cs_added st)"
    by (simp only: ac_simps)
  also have "\<dots> = (mset (cs_included ?s1) + mset (cs_removed ?s1) + mset (cs_added st))
      + mset (cs_added ?s2)"
    unfolding m2 by (simp only: ac_simps)
  also have "\<dots> = (mset (cs_included st) + mset (cs_removed st) + mset (cs_added ?s2))
      + mset (cs_added ?s1)"
    unfolding m1 by (simp only: ac_simps)
  finally have m: "mset (cs_included ?s2) + mset (cs_removed ?s2) + mset (cs_added st)
      = mset (cs_included st) + mset (cs_removed st) + mset (cs_added ?s2)"
    by (simp only: add_right_cancel)
  have r: "set (cs_removed ?s2) \<subseteq> set (cs_removed st) \<union> {x. priority x \<noteq> Required}"
    using a(2) b by blast
  have ad: "set (cs_added ?s2) \<subseteq> set (cs_added st) \<union> set avail"
    using a(3) b by blast
  show ?case using m r ad by simp
qed

lemma pack_dropped:
  "r_dropped (fst (pack buildStats detectWarnings opt query)) =
     (let budget = contextWindow (config opt)
                    - (case reserveOutput (config opt) of
                         None \<Rightarrow> DEFAULT_RESERVE_OUTPUT | Some r \<Rightarrow> r);
          scored = fst (collectAndScore (sources opt) query);
          allItems = (case query of
                        None \<Rightarrow> scored
                      | Some q \<Rightarrow> if q \<noteq> [] then scored @ [query_item (tokenizer opt) q]
                                  else scored);
          d = greedyPack allItems budget;
          e = enforceConstraints (included d)
                (List.map_filter (\<lambda>di. find (\<lambda>i. item_id i = d_id di) allItems) (dropped d))
                (collectConstraints (sources opt)) budget
      in filter (\<lambda>di. d_id di \<notin> set (map item_id (added e))) (dropped d)
           @ map (\<lambda>i. \<lparr>d_source = source i, d_id = item_id i, d_tokens = tokens i,
                        d_score = score i, d_reason = ''constraint dependency unavailable''\<rparr>)
               (removed e))"
  by (simp add: pack_def Let_def case_prod_beta dropped_item_def)

text \<open>
  Claim C4. The constraints are processed one after the other, each against the state
  the earlier ones left. The whole pass is the specification's reconciliation
  \<open>spec_reconcile\<close>: starting from the admitted list as given and two empty logs, one
  step per constraint in the order of the list, each step
  \<^item> changing nothing when the trigger is not admitted, or the dependency is admitted
    already, or the dependency is not in the available pool;
  \<^item> otherwise appending the dependency to the admitted list and to \<open>added\<close>, when the
    sum of the admitted costs with it stays within the budget;
  \<^item> otherwise taking the trigger out of the admitted list and appending it to
    \<open>removed\<close>, unless the trigger is required: then nothing changes.
  For every position in the list, with \<open>st\<close> the variables of the loop after the
  constraints before it: \<open>st\<close> is what the reconciliation of those constraints gives
  from the admitted list, and what \<open>enforceConstraints\<close> returns on them; the id set
  and the running total of \<open>st\<close> describe the admitted array; the round of the
  constraint at that position is one step of the reconciliation, and moves the
  variables as the three cases say, the running total with them. Over the whole pass,
  the admitted and removed items together are the given and added ones; no removed item
  is required, so every required item given stays admitted; every added item comes from
  the pool. \<open>pack\<close> lists every removed item as dropped, with its source, id, cost
  and score and the reason \<open>constraint dependency unavailable\<close>. Ids in the admitted
  array are taken distinct.
\<close>

theorem enforceConstraints_sequential:
  assumes "distinct (map item_id incl)"
    and "constraints = pre @ c # post"
    and "st = enforce_loop budget (availableMap avail) pre (enforce_init incl)"
  shows
    "enforceConstraints incl avail constraints budget
       = (case spec_reconcile incl avail constraints budget of
            (admitted, adds, rems) \<Rightarrow> \<lparr>c_included = admitted, added = adds, removed = rems\<rparr>)
     \<and> spec_reconcile incl avail constraints budget
       = foldl (spec_reconcile_step budget avail)
           (spec_reconcile_step budget avail (spec_reconcile incl avail pre budget) c) post
     \<and> spec_reconcile incl avail [] budget = (incl, [], [])
     \<and> (cs_included st, cs_added st, cs_removed st) = spec_reconcile incl avail pre budget
     \<and> enforceConstraints incl avail pre budget
       = \<lparr>c_included = cs_included st, added = cs_added st, removed = cs_removed st\<rparr>
     \<and> enforceConstraints incl avail (pre @ [c]) budget
       = \<lparr>c_included = cs_included (enforce_step budget (availableMap avail) st c),
          added = cs_added (enforce_step budget (availableMap avail) st c),
          removed = cs_removed (enforce_step budget (availableMap avail) st c)\<rparr>
     \<and> (cs_included (enforce_step budget (availableMap avail) st c),
        cs_added (enforce_step budget (availableMap avail) st c),
        cs_removed (enforce_step budget (availableMap avail) st c))
       = spec_reconcile_step budget avail (cs_included st, cs_added st, cs_removed st) c
     \<and> enforceConstraints incl avail constraints budget
       = \<lparr>c_included = cs_included (enforce_loop budget (availableMap avail) post
                           (enforce_step budget (availableMap avail) st c)),
          added = cs_added (enforce_loop budget (availableMap avail) post
                           (enforce_step budget (availableMap avail) st c)),
          removed = cs_removed (enforce_loop budget (availableMap avail) post
                           (enforce_step budget (availableMap avail) st c))\<rparr>
     \<and> distinct (map item_id (cs_included st))
     \<and> cs_ids st = set (map item_id (cs_included st))
     \<and> cs_tokens st = sum_list (map tokens (cs_included st))
     \<and> (ifIncluded c \<notin> set (map item_id (cs_included st))
          \<or> thenRequire c \<in> set (map item_id (cs_included st))
          \<or> thenRequire c \<notin> set (map item_id avail)
         \<longrightarrow> enforce_step budget (availableMap avail) st c = st)
     \<and> (ifIncluded c \<in> set (map item_id (cs_included st))
          \<and> thenRequire c \<notin> set (map item_id (cs_included st))
          \<and> thenRequire c \<in> set (map item_id avail)
         \<longrightarrow> (\<exists>dep. availableMap avail (thenRequire c) = Some dep
                \<and> dep \<in> set avail \<and> item_id dep = thenRequire c
                \<and> (sum_list (map tokens (cs_included st)) + tokens dep \<le> budget \<longrightarrow>
                     enforce_step budget (availableMap avail) st c
                       = st\<lparr>cs_included := cs_included st @ [dep],
                            cs_ids := insert (item_id dep) (cs_ids st),
                            cs_tokens := cs_tokens st + tokens dep,
                            cs_added := cs_added st @ [dep]\<rparr>)
                \<and> (\<not> sum_list (map tokens (cs_included st)) + tokens dep \<le> budget \<longrightarrow>
                     (\<exists>trigger. trigger \<in> set (cs_included st) \<and> item_id trigger = ifIncluded c
                        \<and> (if priority trigger \<noteq> Required
                            then enforce_step budget (availableMap avail) st c
                               = st\<lparr>cs_included :=
                                       filter (\<lambda>x. item_id x \<noteq> ifIncluded c) (cs_included st),
                                     cs_ids := cs_ids st - {ifIncluded c},
                                     cs_tokens := cs_tokens st - tokens trigger,
                                     cs_removed := cs_removed st @ [trigger]\<rparr>
                            else enforce_step budget (availableMap avail) st c = st)))))
     \<and> mset (c_included (enforceConstraints incl avail constraints budget))
          + mset (removed (enforceConstraints incl avail constraints budget))
       = mset incl + mset (added (enforceConstraints incl avail constraints budget))
     \<and> (\<forall>x\<in>set (removed (enforceConstraints incl avail constraints budget)).
           priority x \<noteq> Required)
     \<and> (\<forall>x\<in>set incl. priority x = Required
           \<longrightarrow> x \<in> set (c_included (enforceConstraints incl avail constraints budget)))
     \<and> set (added (enforceConstraints incl avail constraints budget)) \<subseteq> set avail
     \<and> r_dropped (fst (pack buildStats detectWarnings opt query)) =
         (let budget = contextWindow (config opt)
                        - (case reserveOutput (config opt) of
                             None \<Rightarrow> DEFAULT_RESERVE_OUTPUT | Some r \<Rightarrow> r);
              scored = fst (collectAndScore (sources opt) query);
              allItems = (case query of
                            None \<Rightarrow> scored
                          | Some q \<Rightarrow> if q \<noteq> [] then scored @ [query_item (tokenizer opt) q]
                                      else scored);
              d = greedyPack allItems budget;
              e = enforceConstraints (included d)
                    (List.map_filter (\<lambda>di. find (\<lambda>i. item_id i = d_id di) allItems) (dropped d))
                    (collectConstraints (sources opt)) budget
          in filter (\<lambda>di. d_id di \<notin> set (map item_id (added e))) (dropped d)
               @ map (\<lambda>i. \<lparr>d_source = source i, d_id = item_id i, d_tokens = tokens i,
                            d_score = score i,
                            d_reason = ''constraint dependency unavailable''\<rparr>)
                   (removed e))"
proof -
  let ?amap = "availableMap avail"
  let ?e = "enforceConstraints incl avail constraints budget"
  have key: "\<And>k dep. ?amap k = Some dep \<Longrightarrow> item_id dep = k"
    using availableMap_Some by blast
  have inv0: "enforce_inv (enforce_init incl)"
    using assms(1) by (rule enforce_inv_init)
  have inv: "enforce_inv st"
    unfolding assms(3) by (rule enforce_loop_inv[OF inv0 key])
  have d: "distinct (map item_id (cs_included st))"
    and ids: "cs_ids st = set (map item_id (cs_included st))"
    and tk: "cs_tokens st = sum_list (map tokens (cs_included st))"
    using inv by (simp_all add: enforce_inv_def)
  have init: "(cs_included (enforce_init incl), cs_added (enforce_init incl),
      cs_removed (enforce_init incl)) = (incl, [], [])"
    by (simp add: enforce_init_def)
  have whole: "(cs_included (enforce_loop budget ?amap cs (enforce_init incl)),
          cs_added (enforce_loop budget ?amap cs (enforce_init incl)),
          cs_removed (enforce_loop budget ?amap cs (enforce_init incl)))
       = spec_reconcile incl avail cs budget" for cs
    unfolding spec_reconcile_def init[symmetric] using inv0 by (rule enforce_loop_refines)
  have r1: "?e = (case spec_reconcile incl avail constraints budget of
            (admitted, adds, rems) \<Rightarrow> \<lparr>c_included = admitted, added = adds, removed = rems\<rparr>)"
    unfolding whole[symmetric] enforceConstraints_loop by simp
  have r2: "spec_reconcile incl avail constraints budget
       = foldl (spec_reconcile_step budget avail)
           (spec_reconcile_step budget avail (spec_reconcile incl avail pre budget) c) post"
    unfolding assms(2) spec_reconcile_def by simp
  have r3: "spec_reconcile incl avail [] budget = (incl, [], [])"
    by (simp add: spec_reconcile_def)
  have r4: "(cs_included st, cs_added st, cs_removed st) = spec_reconcile incl avail pre budget"
    unfolding assms(3) by (rule whole)
  have r5: "enforceConstraints incl avail pre budget
       = \<lparr>c_included = cs_included st, added = cs_added st, removed = cs_removed st\<rparr>"
    unfolding assms(3) by (rule enforceConstraints_loop)
  have r6: "enforceConstraints incl avail (pre @ [c]) budget
       = \<lparr>c_included = cs_included (enforce_step budget ?amap st c),
          added = cs_added (enforce_step budget ?amap st c),
          removed = cs_removed (enforce_step budget ?amap st c)\<rparr>"
    unfolding assms(3) enforceConstraints_loop by (simp add: enforce_loop_append)
  have r7: "(cs_included (enforce_step budget ?amap st c),
        cs_added (enforce_step budget ?amap st c),
        cs_removed (enforce_step budget ?amap st c))
       = spec_reconcile_step budget avail (cs_included st, cs_added st, cs_removed st) c"
    using inv by (rule enforce_step_refines)
  have loop: "enforce_loop budget ?amap constraints (enforce_init incl)
      = enforce_loop budget ?amap post (enforce_step budget ?amap st c)"
    unfolding assms(2) assms(3) by (simp add: enforce_loop_append)
  have res: "?e
       = \<lparr>c_included = cs_included (enforce_loop budget ?amap post (enforce_step budget ?amap st c)),
          added = cs_added (enforce_loop budget ?amap post (enforce_step budget ?amap st c)),
          removed = cs_removed (enforce_loop budget ?amap post (enforce_step budget ?amap st c))\<rparr>"
    unfolding loop[symmetric] by (rule enforceConstraints_loop)
  have skip: "ifIncluded c \<notin> set (map item_id (cs_included st))
          \<or> thenRequire c \<in> set (map item_id (cs_included st))
          \<or> thenRequire c \<notin> set (map item_id avail)
         \<longrightarrow> enforce_step budget ?amap st c = st"
  proof
    assume "ifIncluded c \<notin> set (map item_id (cs_included st))
          \<or> thenRequire c \<in> set (map item_id (cs_included st))
          \<or> thenRequire c \<notin> set (map item_id avail)"
    then have "ifIncluded c \<notin> cs_ids st \<or> thenRequire c \<in> cs_ids st \<or> ?amap (thenRequire c) = None"
      unfolding ids availableMap_None by blast
    then show "enforce_step budget ?amap st c = st" by (rule enforce_step_skip)
  qed
  have act: "ifIncluded c \<in> set (map item_id (cs_included st))
          \<and> thenRequire c \<notin> set (map item_id (cs_included st))
          \<and> thenRequire c \<in> set (map item_id avail)
         \<longrightarrow> (\<exists>dep. ?amap (thenRequire c) = Some dep
                \<and> dep \<in> set avail \<and> item_id dep = thenRequire c
                \<and> (sum_list (map tokens (cs_included st)) + tokens dep \<le> budget \<longrightarrow>
                     enforce_step budget ?amap st c
                       = st\<lparr>cs_included := cs_included st @ [dep],
                            cs_ids := insert (item_id dep) (cs_ids st),
                            cs_tokens := cs_tokens st + tokens dep,
                            cs_added := cs_added st @ [dep]\<rparr>)
                \<and> (\<not> sum_list (map tokens (cs_included st)) + tokens dep \<le> budget \<longrightarrow>
                     (\<exists>trigger. trigger \<in> set (cs_included st) \<and> item_id trigger = ifIncluded c
                        \<and> (if priority trigger \<noteq> Required
                            then enforce_step budget ?amap st c
                               = st\<lparr>cs_included :=
                                       filter (\<lambda>x. item_id x \<noteq> ifIncluded c) (cs_included st),
                                     cs_ids := cs_ids st - {ifIncluded c},
                                     cs_tokens := cs_tokens st - tokens trigger,
                                     cs_removed := cs_removed st @ [trigger]\<rparr>
                            else enforce_step budget ?amap st c = st))))"
  proof
    assume h: "ifIncluded c \<in> set (map item_id (cs_included st))
          \<and> thenRequire c \<notin> set (map item_id (cs_included st))
          \<and> thenRequire c \<in> set (map item_id avail)"
    have "?amap (thenRequire c) \<noteq> None" using h availableMap_None[of avail "thenRequire c"] by blast
    then obtain dep where dep: "?amap (thenRequire c) = Some dep" by blast
    have c1: "ifIncluded c \<in> cs_ids st" and c2: "thenRequire c \<notin> cs_ids st"
      using h ids by simp_all
    have a: "enforce_step budget ?amap st c
                       = st\<lparr>cs_included := cs_included st @ [dep],
                            cs_ids := insert (item_id dep) (cs_ids st),
                            cs_tokens := cs_tokens st + tokens dep,
                            cs_added := cs_added st @ [dep]\<rparr>"
      if "sum_list (map tokens (cs_included st)) + tokens dep \<le> budget"
      using enforce_step_add[where amap="?amap" and c=c and st=st, OF c1 c2 dep] that tk by simp
    have b: "\<exists>trigger. trigger \<in> set (cs_included st) \<and> item_id trigger = ifIncluded c
                        \<and> (if priority trigger \<noteq> Required
                            then enforce_step budget ?amap st c
                               = st\<lparr>cs_included :=
                                       filter (\<lambda>x. item_id x \<noteq> ifIncluded c) (cs_included st),
                                     cs_ids := cs_ids st - {ifIncluded c},
                                     cs_tokens := cs_tokens st - tokens trigger,
                                     cs_removed := cs_removed st @ [trigger]\<rparr>
                            else enforce_step budget ?amap st c = st)"
      if "\<not> sum_list (map tokens (cs_included st)) + tokens dep \<le> budget"
      using enforce_step_evict[where amap="?amap" and c=c and st=st, OF inv c1 c2 dep] that tk
      by simp
    show "\<exists>dep. ?amap (thenRequire c) = Some dep
                \<and> dep \<in> set avail \<and> item_id dep = thenRequire c
                \<and> (sum_list (map tokens (cs_included st)) + tokens dep \<le> budget \<longrightarrow>
                     enforce_step budget ?amap st c
                       = st\<lparr>cs_included := cs_included st @ [dep],
                            cs_ids := insert (item_id dep) (cs_ids st),
                            cs_tokens := cs_tokens st + tokens dep,
                            cs_added := cs_added st @ [dep]\<rparr>)
                \<and> (\<not> sum_list (map tokens (cs_included st)) + tokens dep \<le> budget \<longrightarrow>
                     (\<exists>trigger. trigger \<in> set (cs_included st) \<and> item_id trigger = ifIncluded c
                        \<and> (if priority trigger \<noteq> Required
                            then enforce_step budget ?amap st c
                               = st\<lparr>cs_included :=
                                       filter (\<lambda>x. item_id x \<noteq> ifIncluded c) (cs_included st),
                                     cs_ids := cs_ids st - {ifIncluded c},
                                     cs_tokens := cs_tokens st - tokens trigger,
                                     cs_removed := cs_removed st @ [trigger]\<rparr>
                            else enforce_step budget ?amap st c = st)))"
      using dep availableMap_Some[OF dep] a b by blast
  qed
  note cons = enforce_loop_conserve[OF inv0, of budget avail constraints]
  have e_inc: "c_included ?e = cs_included (enforce_loop budget ?amap constraints (enforce_init incl))"
    and e_add: "added ?e = cs_added (enforce_loop budget ?amap constraints (enforce_init incl))"
    and e_rem: "removed ?e = cs_removed (enforce_loop budget ?amap constraints (enforce_init incl))"
    unfolding enforceConstraints_loop by simp_all
  have m: "mset (c_included ?e) + mset (removed ?e) = mset incl + mset (added ?e)"
    unfolding e_inc e_add e_rem using cons by (simp add: enforce_init_def)
  have nr: "\<forall>x\<in>set (removed ?e). priority x \<noteq> Required"
    unfolding e_rem using cons by (auto simp: enforce_init_def)
  have sub: "set (added ?e) \<subseteq> set avail"
    unfolding e_add using cons by (auto simp: enforce_init_def)
  have req: "\<forall>x\<in>set incl. priority x = Required \<longrightarrow> x \<in> set (c_included ?e)"
  proof (intro ballI impI)
    fix x assume x: "x \<in> set incl" and p: "priority x = Required"
    have "x \<in># mset incl + mset (added ?e)" using x by simp
    then have "x \<in># mset (c_included ?e) + mset (removed ?e)" unfolding m .
    then have "x \<in> set (c_included ?e) \<or> x \<in> set (removed ?e)" by simp
    then show "x \<in> set (c_included ?e)" using nr p by blast
  qed
  note pd = pack_dropped[of buildStats detectWarnings opt query]
  show ?thesis
    using r1 r2 r3 r4 r5 r6 r7 res d ids tk skip act m nr req sub pd
    by (intro conjI)
qed

theorem enforceConstraints_sequential_witness:
  "distinct (map item_id [mk_item ''a'' ''tools'' 50 High (Num 100) 0,
                          mk_item ''b'' ''tools'' 30 High (Num 100) 1])
   \<and> enforceConstraints
        [mk_item ''a'' ''tools'' 50 High (Num 100) 0, mk_item ''b'' ''tools'' 30 High (Num 100) 1]
        [mk_item ''x'' ''examples'' 20 Low (Num 10) 0, mk_item ''y'' ''examples'' 40 Low (Num 10) 1]
        [\<lparr>ifIncluded = ''a'', thenRequire = ''x''\<rparr>, \<lparr>ifIncluded = ''b'', thenRequire = ''y''\<rparr>,
         \<lparr>ifIncluded = ''a'', thenRequire = ''y''\<rparr>] 110
      = \<lparr>c_included = [mk_item ''a'' ''tools'' 50 High (Num 100) 0,
                        mk_item ''x'' ''examples'' 20 Low (Num 10) 0,
                        mk_item ''y'' ''examples'' 40 Low (Num 10) 1],
         added = [mk_item ''x'' ''examples'' 20 Low (Num 10) 0,
                  mk_item ''y'' ''examples'' 40 Low (Num 10) 1],
         removed = [mk_item ''b'' ''tools'' 30 High (Num 100) 1]\<rparr>
   \<and> enforceConstraints
        [mk_item ''a'' ''tools'' 50 High (Num 100) 0, mk_item ''b'' ''tools'' 30 High (Num 100) 1]
        [mk_item ''x'' ''examples'' 20 Low (Num 10) 0, mk_item ''y'' ''examples'' 40 Low (Num 10) 1]
        [\<lparr>ifIncluded = ''a'', thenRequire = ''x''\<rparr>] 110
      = \<lparr>c_included = [mk_item ''a'' ''tools'' 50 High (Num 100) 0,
                        mk_item ''b'' ''tools'' 30 High (Num 100) 1,
                        mk_item ''x'' ''examples'' 20 Low (Num 10) 0],
         added = [mk_item ''x'' ''examples'' 20 Low (Num 10) 0],
         removed = []\<rparr>
   \<and> cs_tokens (enforce_loop 110
        (availableMap [mk_item ''x'' ''examples'' 20 Low (Num 10) 0,
                       mk_item ''y'' ''examples'' 40 Low (Num 10) 1])
        [\<lparr>ifIncluded = ''a'', thenRequire = ''x''\<rparr>]
        (enforce_init [mk_item ''a'' ''tools'' 50 High (Num 100) 0,
                       mk_item ''b'' ''tools'' 30 High (Num 100) 1])) = 100
   \<and> enforceConstraints
        [mk_item ''a'' ''tools'' 50 High (Num 100) 0, mk_item ''b'' ''tools'' 30 High (Num 100) 1]
        [mk_item ''x'' ''examples'' 20 Low (Num 10) 0, mk_item ''y'' ''examples'' 40 Low (Num 10) 1]
        ([\<lparr>ifIncluded = ''a'', thenRequire = ''x''\<rparr>] @ [\<lparr>ifIncluded = ''b'', thenRequire = ''y''\<rparr>])
        110
      = \<lparr>c_included = [mk_item ''a'' ''tools'' 50 High (Num 100) 0,
                        mk_item ''x'' ''examples'' 20 Low (Num 10) 0],
         added = [mk_item ''x'' ''examples'' 20 Low (Num 10) 0],
         removed = [mk_item ''b'' ''tools'' 30 High (Num 100) 1]\<rparr>
   \<and> enforceConstraints
        [mk_item ''a'' ''tools'' 50 High (Num 100) 0, mk_item ''b'' ''tools'' 30 High (Num 100) 1]
        [mk_item ''x'' ''examples'' 20 Low (Num 10) 0, mk_item ''y'' ''examples'' 40 Low (Num 10) 1]
        [\<lparr>ifIncluded = ''a'', thenRequire = ''y''\<rparr>] 110
      = \<lparr>c_included = [mk_item ''b'' ''tools'' 30 High (Num 100) 1], added = [],
         removed = [mk_item ''a'' ''tools'' 50 High (Num 100) 0]\<rparr>
   \<and> enforceConstraints [mk_item ''sys'' ''system'' 80 Required PosInf 0]
        [mk_item ''dep'' ''deps'' 50 Low (Num 10) 0]
        [\<lparr>ifIncluded = ''sys'', thenRequire = ''dep''\<rparr>] 100
      = \<lparr>c_included = [mk_item ''sys'' ''system'' 80 Required PosInf 0], added = [],
         removed = []\<rparr>
   \<and> r_dropped (fst (pack (\<lambda>placed dropped budget cfg. sum_list (map p_tokens placed))
        (\<lambda>placed dropped budget. length dropped)
        \<lparr>config = \<lparr>model = ''gpt-4o'', contextWindow = 200, reserveOutput = Some 100\<rparr>,
         tokenizer = (\<lambda>text. int (length text)),
         sources = [\<lparr>src_name = ''tools'',
                     src_items = [mk_item ''tools_search'' ''tools'' 80 High (Num 0) 0],
                     src_options = \<lparr>o_priority = High, o_dropStrategy = None,
                       o_compressStrategy = None, o_keepLast = None, o_scorer = None,
                       o_requires = Some [(''tools_search'', ''examples_demo'')]\<rparr>\<rparr>,
                    \<lparr>src_name = ''examples'',
                     src_items = [mk_item ''examples_demo'' ''examples'' 50 Low (Num 0) 0],
                     src_options = \<lparr>o_priority = Low, o_dropStrategy = None,
                       o_compressStrategy = None, o_keepLast = None, o_scorer = None,
                       o_requires = None\<rparr>\<rparr>]\<rparr>
        None))
      = [\<lparr>d_source = ''examples'', d_id = ''examples_demo'', d_tokens = 50, d_score = Num 10,
          d_reason = ''budget exhausted''\<rparr>,
         \<lparr>d_source = ''tools'', d_id = ''tools_search'', d_tokens = 80, d_score = Num 100,
          d_reason = ''constraint dependency unavailable''\<rparr>]"
proof -
  let ?a = "mk_item ''a'' ''tools'' 50 High (Num 100) 0"
  let ?b = "mk_item ''b'' ''tools'' 30 High (Num 100) 1"
  let ?x = "mk_item ''x'' ''examples'' 20 Low (Num 10) 0"
  let ?y = "mk_item ''y'' ''examples'' 40 Low (Num 10) 1"
  let ?c1 = "\<lparr>ifIncluded = ''a'', thenRequire = ''x''\<rparr>"
  let ?c2 = "\<lparr>ifIncluded = ''b'', thenRequire = ''y''\<rparr>"
  let ?c3 = "\<lparr>ifIncluded = ''a'', thenRequire = ''y''\<rparr>"
  let ?st = "enforce_loop 110 (availableMap [?x, ?y]) [?c1] (enforce_init [?a, ?b])"
  have d: "distinct (map item_id [?a, ?b])" by code_simp
  have s: "[?c1, ?c2, ?c3] = [?c1] @ ?c2 # [?c3]" by simp
  note t = enforceConstraints_sequential[where incl="[?a, ?b]" and avail="[?x, ?y]"
      and budget=110 and st="?st", OF d s refl]
  note t1 = t[THEN conjunct1]
  note t4 = t[THEN conjunct2, THEN conjunct2, THEN conjunct2, THEN conjunct1]
  note t5 = t[THEN conjunct2, THEN conjunct2, THEN conjunct2, THEN conjunct2, THEN conjunct1]
  note t6 = t[THEN conjunct2, THEN conjunct2, THEN conjunct2, THEN conjunct2, THEN conjunct2,
      THEN conjunct1]
  note t7 = t[THEN conjunct2, THEN conjunct2, THEN conjunct2, THEN conjunct2, THEN conjunct2,
      THEN conjunct2, THEN conjunct1]
  note t11 = t[THEN conjunct2, THEN conjunct2, THEN conjunct2, THEN conjunct2, THEN conjunct2,
      THEN conjunct2, THEN conjunct2, THEN conjunct2, THEN conjunct2, THEN conjunct2,
      THEN conjunct1]
  have sr: "spec_reconcile [?a, ?b] [?x, ?y] [?c1, ?c2, ?c3] 110 = ([?a, ?x, ?y], [?x, ?y], [?b])"
    by code_simp
  have sp: "spec_reconcile [?a, ?b] [?x, ?y] [?c1] 110 = ([?a, ?b, ?x], [?x], [])"
    by code_simp
  have ss: "spec_reconcile_step 110 [?x, ?y] ([?a, ?b, ?x], [?x], []) ?c2 = ([?a, ?x], [?x], [?b])"
    by code_simp
  have w1: "enforceConstraints [?a, ?b] [?x, ?y] [?c1, ?c2, ?c3] 110
      = \<lparr>c_included = [?a, ?x, ?y], added = [?x, ?y], removed = [?b]\<rparr>"
    unfolding t1 sr by simp
  have st: "(cs_included ?st, cs_added ?st, cs_removed ?st) = ([?a, ?b, ?x], [?x], [])"
    unfolding t4 sp by (rule refl)
  have w2: "enforceConstraints [?a, ?b] [?x, ?y] [?c1] 110
      = \<lparr>c_included = [?a, ?b, ?x], added = [?x], removed = []\<rparr>"
    unfolding t5 using st by simp
  have w3: "cs_tokens ?st = 100"
    unfolding t11 using st by (simp add: mk_item_def)
  have w4: "enforceConstraints [?a, ?b] [?x, ?y] ([?c1] @ [?c2]) 110
      = \<lparr>c_included = [?a, ?x], added = [?x], removed = [?b]\<rparr>"
    unfolding t6 using t7[unfolded st ss] by simp
  have w5: "enforceConstraints [?a, ?b] [?x, ?y] [?c3] 110
      = \<lparr>c_included = [?b], added = [], removed = [?a]\<rparr>"
    by code_simp
  have w6: "enforceConstraints [mk_item ''sys'' ''system'' 80 Required PosInf 0]
        [mk_item ''dep'' ''deps'' 50 Low (Num 10) 0]
        [\<lparr>ifIncluded = ''sys'', thenRequire = ''dep''\<rparr>] 100
      = \<lparr>c_included = [mk_item ''sys'' ''system'' 80 Required PosInf 0], added = [],
         removed = []\<rparr>"
    by code_simp
  have w7: "r_dropped (fst (pack (\<lambda>placed dropped budget cfg. sum_list (map p_tokens placed))
        (\<lambda>placed dropped budget. length dropped)
        \<lparr>config = \<lparr>model = ''gpt-4o'', contextWindow = 200, reserveOutput = Some 100\<rparr>,
         tokenizer = (\<lambda>text. int (length text)),
         sources = [\<lparr>src_name = ''tools'',
                     src_items = [mk_item ''tools_search'' ''tools'' 80 High (Num 0) 0],
                     src_options = \<lparr>o_priority = High, o_dropStrategy = None,
                       o_compressStrategy = None, o_keepLast = None, o_scorer = None,
                       o_requires = Some [(''tools_search'', ''examples_demo'')]\<rparr>\<rparr>,
                    \<lparr>src_name = ''examples'',
                     src_items = [mk_item ''examples_demo'' ''examples'' 50 Low (Num 0) 0],
                     src_options = \<lparr>o_priority = Low, o_dropStrategy = None,
                       o_compressStrategy = None, o_keepLast = None, o_scorer = None,
                       o_requires = None\<rparr>\<rparr>]\<rparr>
        None))
      = [\<lparr>d_source = ''examples'', d_id = ''examples_demo'', d_tokens = 50, d_score = Num 10,
          d_reason = ''budget exhausted''\<rparr>,
         \<lparr>d_source = ''tools'', d_id = ''tools_search'', d_tokens = 80, d_score = Num 100,
          d_reason = ''constraint dependency unavailable''\<rparr>]"
    by code_simp
  show ?thesis using d w1 w2 w3 w4 w5 w6 w7 by (intro conjI)
qed

section \<open>Properties of the recency bias\<close>

lemma length_recency_loop: "length (recency_loop mf n i xs) = length xs"
  by (induction xs arbitrary: i) simp_all

lemma recency_loop_nth:
  "k < length xs \<Longrightarrow>
   recency_loop mf n i xs ! k =
     (if priority (xs ! k) = Required then xs ! k
      else (xs ! k)\<lparr>score := js_mul (score (xs ! k)) (recency_factor mf (i + k) n)\<rparr>)"
proof (induction xs arbitrary: i k)
  case Nil
  then show ?case by simp
next
  case (Cons x xs)
  show ?case
  proof (cases k)
    case 0
    then show ?thesis by simp
  next
    case (Suc j)
    then have "j < length xs" using Cons.prems by simp
    then show ?thesis using Suc Cons.IH[of j "Suc i"] by simp
  qed
qed

text \<open>
  What \<open>applyRecencyBias\<close> does to each item: nothing on a list of at most one item and
  nothing to a required item; any other item at index \<open>i\<close> has its score multiplied by the
  factor of \<open>i\<close>.
\<close>

lemma applyRecencyBiasWith_short:
  "length xs \<le> 1 \<Longrightarrow> applyRecencyBiasWith mf xs = xs"
  by (simp add: applyRecencyBiasWith_def)

lemma applyRecencyBiasWith_nth:
  "1 < length xs \<Longrightarrow> k < length xs \<Longrightarrow>
   applyRecencyBiasWith mf xs ! k =
     (if priority (xs ! k) = Required then xs ! k
      else (xs ! k)\<lparr>score := js_mul (score (xs ! k)) (recency_factor mf k (length xs))\<rparr>)"
  by (simp add: applyRecencyBiasWith_def recency_loop_nth)

lemma length_applyRecencyBias: "length (applyRecencyBias xs) = length xs"
  by (simp add: applyRecencyBias_def applyRecencyBiasWith_def length_recency_loop Let_def)

text \<open>The run of the test suite: three items of score 100; the newest keeps 100.\<close>

lemma applyRecencyBias_three:
  "map score (applyRecencyBias (map (\<lambda>i. mk_item ''h'' ''h'' 10 High (Num 100) (int i)) [0..<3]))
     = [Num 10, Num (7740561859543041 / 140737488355328), Num 100]"
  by code_simp

text \<open>
  Claim C7 at ten items of priority \<open>high\<close> and score 100. The factor of the last index is
  \<open>0.1 + (0.9 * 9) / 9\<close>, which in binary64 is \<open>1 - 2^-53\<close>, not 1: the newest item's
  score comes out as 99.99999999999999, below the score it had.
\<close>

theorem applyRecencyBias_last_of_ten:
  "map score (applyRecencyBias
        (map (\<lambda>i. mk_item ''h'' ''history'' 10 High (Num 100) (int i)) [0..<10]))
      = [Num 10, Num 20, Num (8444249301319681 / 281474976710656), Num 40, Num 50, Num 60,
         Num 70, Num 80, Num 90, Num (7036874417766399 / 70368744177664)]
   \<and> recency_factor defaultMinFactor 9 10 = Num (9007199254740991 / 9007199254740992)
   \<and> score (last (map (\<lambda>i. mk_item ''h'' ''history'' 10 High (Num 100) (int i)) [0..<10]))
      = Num 100
   \<and> js_less
        (score (last (applyRecencyBias
           (map (\<lambda>i. mk_item ''h'' ''history'' 10 High (Num 100) (int i)) [0..<10]))))
        (score (last (map (\<lambda>i. mk_item ''h'' ''history'' 10 High (Num 100) (int i)) [0..<10])))"
proof -
  let ?ten = "map (\<lambda>i. mk_item ''h'' ''history'' 10 High (Num 100) (int i)) [0..<10]"
  have a: "map score (applyRecencyBias ?ten)
      = [Num 10, Num 20, Num (8444249301319681 / 281474976710656), Num 40, Num 50, Num 60,
         Num 70, Num 80, Num 90, Num (7036874417766399 / 70368744177664)]"
    by code_simp
  have b: "recency_factor defaultMinFactor 9 10 = Num (9007199254740991 / 9007199254740992)"
    by code_simp
  have c: "score (last ?ten) = Num 100"
    by code_simp
  have n: "applyRecencyBias ?ten \<noteq> []"
    using length_applyRecencyBias[of ?ten] by (simp del: upt_Suc flip: length_greater_0_conv)
  have "score (last (applyRecencyBias ?ten)) = last (map score (applyRecencyBias ?ten))"
    by (rule last_map[OF n, symmetric])
  also have "\<dots> = Num (7036874417766399 / 70368744177664)"
    unfolding a by simp
  finally have d: "js_less (score (last (applyRecencyBias ?ten))) (score (last ?ten))"
    unfolding c by simp
  show ?thesis using a b c d by (intro conjI)
qed

section \<open>Properties of the optimizer\<close>

lemma reset_score_update [simp]: "reset_score (x\<lparr>score := s\<rparr>) = reset_score x"
  by (simp add: reset_score_def)

lemma reset_score_idem [simp]: "reset_score (reset_score x) = reset_score x"
  by (simp add: reset_score_def)

lemma reset_score_custom [simp]: "reset_score (custom_score f q x) = reset_score x"
  by (simp add: custom_score_def)

lemma reset_recency_loop: "map reset_score (recency_loop mf n i xs) = map reset_score xs"
  by (induction xs arbitrary: i) simp_all

lemma reset_applyRecencyBias: "map reset_score (applyRecencyBias xs) = map reset_score xs"
  by (simp add: applyRecencyBias_def applyRecencyBiasWith_def Let_def reset_recency_loop)

text \<open>Scoring a source writes scores only, and reads none but those it has written.\<close>

lemma reset_score_source: "map reset_score (score_source query src) = map reset_score (src_items src)"
  by (simp add: score_source_def Let_def reset_applyRecencyBias comp_def
      split: option.splits)

lemma score_source_cong:
  assumes "src_name a = src_name b" and "src_options a = src_options b"
    and "map reset_score (src_items a) = map reset_score (src_items b)"
  shows "score_source query a = score_source query b"
  using assms by (simp add: score_source_def)

lemma collect_loop_eq:
  "collect_loop query srcs acc
     = (acc @ concat (map (score_source query) srcs),
        map (\<lambda>s. s\<lparr>src_items := score_source query s\<rparr>) srcs)"
  by (induction srcs arbitrary: acc) (simp_all add: Let_def)

lemma collectAndScore_eq:
  "collectAndScore srcs query
     = (concat (map (score_source query) srcs),
        map (\<lambda>s. s\<lparr>src_items := score_source query s\<rparr>) srcs)"
  by (simp add: collectAndScore_def collect_loop_eq)

text \<open>Registries that differ in scores only are scored alike.\<close>

lemma scoreless_sources:
  assumes "map (\<lambda>s. s\<lparr>src_items := map reset_score (src_items s)\<rparr>) xs
         = map (\<lambda>s. s\<lparr>src_items := map reset_score (src_items s)\<rparr>) ys"
  shows "map (score_source query) xs = map (score_source query) ys
     \<and> map (\<lambda>s. s\<lparr>src_items := score_source query s\<rparr>) xs
         = map (\<lambda>s. s\<lparr>src_items := score_source query s\<rparr>) ys
     \<and> collectConstraints xs = collectConstraints ys"
  using assms
proof (induction xs arbitrary: ys)
  case Nil
  then show ?case by simp
next
  case (Cons x xs)
  then obtain y ys' where ys: "ys = y # ys'" by (cases ys) auto
  have hd: "x\<lparr>src_items := map reset_score (src_items x)\<rparr>
      = y\<lparr>src_items := map reset_score (src_items y)\<rparr>"
    and tl: "map (\<lambda>s. s\<lparr>src_items := map reset_score (src_items s)\<rparr>) xs
         = map (\<lambda>s. s\<lparr>src_items := map reset_score (src_items s)\<rparr>) ys'"
    using Cons.prems ys by simp_all
  have n: "src_name x = src_name y"
    using arg_cong[OF hd, of src_name] by simp
  have o: "src_options x = src_options y"
    using arg_cong[OF hd, of src_options] by simp
  have i: "map reset_score (src_items x) = map reset_score (src_items y)"
    using arg_cong[OF hd, of src_items] by simp
  have m: "ContextSource.more x = ContextSource.more y"
    using arg_cong[OF hd, of ContextSource.more] by simp
  have s: "score_source query x = score_source query y"
    using n o i by (rule score_source_cong)
  have u: "x\<lparr>src_items := score_source query x\<rparr> = y\<lparr>src_items := score_source query y\<rparr>"
    using n o m s by (intro ContextSource.equality) simp_all
  show ?case
    using Cons.IH[OF tl] s u o ys by (simp split: option.splits)
qed

lemma pack_scoreless:
  assumes c: "config opt' = config opt" and t: "tokenizer opt' = tokenizer opt"
    and s: "map (\<lambda>s. s\<lparr>src_items := map reset_score (src_items s)\<rparr>) (sources opt')
         = map (\<lambda>s. s\<lparr>src_items := map reset_score (src_items s)\<rparr>) (sources opt)"
  shows "pack buildStats detectWarnings opt' query = pack buildStats detectWarnings opt query"
proof -
  note e = scoreless_sources[OF s, of query]
  have a: "collectAndScore (sources opt') query = collectAndScore (sources opt) query"
    using e by (simp add: collectAndScore_eq)
  have b: "collectConstraints (sources opt') = collectConstraints (sources opt)"
    using e by simp
  have u: "opt'\<lparr>sources := X\<rparr> = opt\<lparr>sources := X\<rparr>" for X
    using c t by (intro Optimizer.equality) simp_all
  show ?thesis
    unfolding pack_def a b c t by (simp add: Let_def case_prod_beta u)
qed

text \<open>An empty query is no query.\<close>

lemma score_source_empty_query: "score_source (Some []) = score_source None"
  by (rule ext) (simp add: score_source_def Let_def split: option.splits)

lemma collectAndScore_empty_query: "collectAndScore srcs (Some []) = collectAndScore srcs None"
  by (simp add: collectAndScore_eq score_source_empty_query)


text \<open>
  Claim C9. A second \<open>pack\<close> with the same query, on the optimizer the first call left
  behind, returns the same result and leaves the same optimizer. More generally the
  scores the items carry on entry do not matter: two optimizers that agree on everything
  but item scores pack alike, since every call starts by writing the base score of each
  item from its priority. The tokenizer, the scorers and the two reporting functions are
  functions of their arguments.
\<close>

theorem pack_repeatable:
  "pack buildStats detectWarnings (snd (pack buildStats detectWarnings opt query)) query
     = pack buildStats detectWarnings opt query
   \<and> (config opt' = config opt \<and> tokenizer opt' = tokenizer opt
       \<and> map (\<lambda>s. s\<lparr>src_items := map reset_score (src_items s)\<rparr>) (sources opt')
           = map (\<lambda>s. s\<lparr>src_items := map reset_score (src_items s)\<rparr>) (sources opt)
      \<longrightarrow> pack buildStats detectWarnings opt' query = pack buildStats detectWarnings opt query)"
proof -
  let ?after = "snd (pack buildStats detectWarnings opt query)"
  have after: "?after = opt\<lparr>sources := map (\<lambda>s. s\<lparr>src_items := score_source query s\<rparr>) (sources opt)\<rparr>"
    by (simp add: pack_def Let_def case_prod_beta collectAndScore_eq)
  have "map (\<lambda>s. s\<lparr>src_items := map reset_score (src_items s)\<rparr>) (sources ?after)
      = map (\<lambda>s. s\<lparr>src_items := map reset_score (src_items s)\<rparr>) (sources opt)"
    unfolding after by (simp add: comp_def reset_score_source)
  moreover have "config ?after = config opt" "tokenizer ?after = tokenizer opt"
    unfolding after by simp_all
  ultimately have again: "pack buildStats detectWarnings ?after query
      = pack buildStats detectWarnings opt query"
    by (intro pack_scoreless)
  show ?thesis using again pack_scoreless[of opt' opt buildStats detectWarnings query] by blast
qed

theorem pack_repeatable_witness:
  "pack (\<lambda>placed dropped budget cfg. sum_list (map p_tokens placed)) (\<lambda>placed dropped budget. length dropped)
     \<lparr>config = \<lparr>model = ''gpt-4o'', contextWindow = 200, reserveOutput = Some 50\<rparr>,
      tokenizer = (\<lambda>text. int (length text)),
      sources = [\<lparr>src_name = ''history'',
                  src_items = [mk_item ''history_0'' ''history'' 60 High (Num 7) 0,
                               mk_item ''history_1'' ''history'' 60 High NaN 1,
                               mk_item ''history_2'' ''history'' 60 High (Num 100) 2],
                  src_options = \<lparr>o_priority = High, o_dropStrategy = None,
                    o_compressStrategy = None, o_keepLast = None, o_scorer = None,
                    o_requires = None\<rparr>\<rparr>]\<rparr>
     (Some ''hi'')
   = pack (\<lambda>placed dropped budget cfg. sum_list (map p_tokens placed)) (\<lambda>placed dropped budget. length dropped)
     \<lparr>config = \<lparr>model = ''gpt-4o'', contextWindow = 200, reserveOutput = Some 50\<rparr>,
      tokenizer = (\<lambda>text. int (length text)),
      sources = [\<lparr>src_name = ''history'',
                  src_items = [mk_item ''history_0'' ''history'' 60 High (Num 0) 0,
                               mk_item ''history_1'' ''history'' 60 High (Num 0) 1,
                               mk_item ''history_2'' ''history'' 60 High (Num 0) 2],
                  src_options = \<lparr>o_priority = High, o_dropStrategy = None,
                    o_compressStrategy = None, o_keepLast = None, o_scorer = None,
                    o_requires = None\<rparr>\<rparr>]\<rparr>
     (Some ''hi'')"
proof -
  let ?cfg = "\<lparr>model = ''gpt-4o'', contextWindow = 200, reserveOutput = Some 50\<rparr>"
  let ?o = "\<lparr>o_priority = High, o_dropStrategy = None,
                    o_compressStrategy = None, o_keepLast = None,
                    o_scorer = (None :: (unit ContextItem \<Rightarrow> string \<Rightarrow> jsnum) option),
                    o_requires = None\<rparr>"
  let ?a = "\<lparr>config = ?cfg, tokenizer = (\<lambda>text. int (length text)),
      sources = [\<lparr>src_name = ''history'',
                  src_items = [mk_item ''history_0'' ''history'' 60 High (Num 7) 0,
                               mk_item ''history_1'' ''history'' 60 High NaN 1,
                               mk_item ''history_2'' ''history'' 60 High (Num 100) 2],
                  src_options = ?o\<rparr>]\<rparr>"
  let ?b = "\<lparr>config = ?cfg, tokenizer = (\<lambda>text. int (length text)),
      sources = [\<lparr>src_name = ''history'',
                  src_items = [mk_item ''history_0'' ''history'' 60 High (Num 0) 0,
                               mk_item ''history_1'' ''history'' 60 High (Num 0) 1,
                               mk_item ''history_2'' ''history'' 60 High (Num 0) 2],
                  src_options = ?o\<rparr>]\<rparr>"
  have h: "config ?a = config ?b \<and> tokenizer ?a = tokenizer ?b
       \<and> map (\<lambda>s. s\<lparr>src_items := map reset_score (src_items s)\<rparr>) (sources ?a)
           = map (\<lambda>s. s\<lparr>src_items := map reset_score (src_items s)\<rparr>) (sources ?b)"
    by (simp add: reset_score_def mk_item_def)
  show ?thesis
    using pack_repeatable[of "\<lambda>placed dropped budget cfg. sum_list (map p_tokens placed)"
        "\<lambda>placed dropped budget. length dropped" ?b "Some ''hi''" ?a] h
    by blast
qed

text \<open>
  Claim C10. The query is tested for truthiness: the empty string appends no query item
  and applies no custom scorer, so \<open>pack('')\<close> returns what \<open>pack()\<close> returns, and leaves
  the optimizer as \<open>pack()\<close> leaves it.
\<close>

theorem pack_empty_query:
  "pack buildStats detectWarnings opt (Some '''') = pack buildStats detectWarnings opt None"
proof -
  have scored: "collectAndScore (sources opt) (Some []) = collectAndScore (sources opt) None"
    by (rule collectAndScore_empty_query)
  have appended: "(case Some ([] :: string) of
        None \<Rightarrow> xs | Some q \<Rightarrow> if q \<noteq> [] then xs @ [query_item (tokenizer opt) q] else xs)
      = (case (None :: string option) of
        None \<Rightarrow> xs | Some q \<Rightarrow> if q \<noteq> [] then xs @ [query_item (tokenizer opt) q] else xs)"
    for xs :: "'a ContextItem list"
    by simp
  show ?thesis
    unfolding pack_def scored appended by (rule refl)
qed

lemma pack_example:
  "map p_id (r_items (fst (pack (\<lambda>placed dropped budget cfg. sum_list (map p_tokens placed))
     (\<lambda>placed dropped budget. length dropped)
     \<lparr>config = \<lparr>model = ''gpt-4o'', contextWindow = 200, reserveOutput = Some 50\<rparr>,
      tokenizer = (\<lambda>text. int (length text)),
      sources = [\<lparr>src_name = ''history'',
                  src_items = [mk_item ''history_0'' ''history'' 60 High (Num 0) 0,
                               mk_item ''history_1'' ''history'' 60 High (Num 0) 1,
                               mk_item ''history_2'' ''history'' 60 High (Num 0) 2],
                  src_options = \<lparr>o_priority = High, o_dropStrategy = None,
                    o_compressStrategy = None, o_keepLast = None, o_scorer = None,
                    o_requires = None\<rparr>\<rparr>]\<rparr>
     (Some ''hi''))))
   = [''history_1'', ''history_2'', ''query_0'']"
  by code_simp

end
